theory Spec2Isabelle
  imports Main "HOL-Library.Multiset"
begin

section \<open>Text and code points\<close>

text \<open>
  Text is a Go string: a list of bytes. Offsets into a line count bytes. The regular
  expression library reads text code point by code point, decoding UTF-8 as it goes, so
  the decoder comes first. Paths have \<open>/\<close> as their separator.
\<close>

definition backslash :: char where
  "backslash = CHR 0x5C"

definition newline :: char where
  "newline = CHR 0x0A"

definition carriage_return :: char where
  "carriage_return = CHR 0x0D"

definition byte :: "char \<Rightarrow> int" where
  "byte c = of_char c"

text \<open>\<open>utf8.RuneError\<close>, the replacement character U+FFFD.\<close>

definition RuneError :: int where
  "RuneError = 0xFFFD"

text \<open>
  The tables of \<open>unicode/utf8\<close>: the length of the encoding that a first byte from
  \<open>0xC2\<close> to \<open>0xF4\<close> announces, the range accepted for the second byte after it, the
  range of every later byte, and the code point of an encoding of two, three and four
  bytes (the masks \<open>0x1F\<close>, \<open>0x0F\<close>, \<open>0x07\<close> and \<open>0x3F\<close> as remainders).
\<close>

definition size_of_lead :: "char \<Rightarrow> nat" where
  "size_of_lead c0 = (if byte c0 < 0xE0 then 2 else if byte c0 < 0xF0 then 3 else 4)"

definition accepted :: "char \<Rightarrow> char \<Rightarrow> bool" where
  "accepted c0 c1 =
     ((if byte c0 = 0xE0 then 0xA0 else if byte c0 = 0xF0 then 0x90 else 0x80) \<le> byte c1
      \<and> byte c1 \<le> (if byte c0 = 0xED then 0x9F else if byte c0 = 0xF4 then 0x8F else 0xBF))"

definition continuation :: "char \<Rightarrow> bool" where
  "continuation c = (0x80 \<le> byte c \<and> byte c \<le> 0xBF)"

definition rune2 :: "char \<Rightarrow> char \<Rightarrow> int" where
  "rune2 c0 c1 = (byte c0 mod 32) * 64 + byte c1 mod 64"

definition rune3 :: "char \<Rightarrow> char \<Rightarrow> char \<Rightarrow> int" where
  "rune3 c0 c1 c2 = (byte c0 mod 16) * 4096 + (byte c1 mod 64) * 64 + byte c2 mod 64"

definition rune4 :: "char \<Rightarrow> char \<Rightarrow> char \<Rightarrow> char \<Rightarrow> int" where
  "rune4 c0 c1 c2 c3 =
     (byte c0 mod 8) * 262144 + (byte c1 mod 64) * 4096 + (byte c2 mod 64) * 64 + byte c3 mod 64"

text \<open>
  \<open>utf8.DecodeRuneInString\<close>: the code point at the start of the text and the number of
  bytes it takes. A byte that starts no well-formed encoding gives \<open>RuneError\<close> with
  width 1; the empty text gives width 0.
\<close>

fun DecodeRuneInString :: "string \<Rightarrow> int \<times> nat" where
  "DecodeRuneInString [] = (RuneError, 0)"
| "DecodeRuneInString (c0 # s) =
     (if byte c0 < 0x80 then (byte c0, 1)
      else if byte c0 < 0xC2 \<or> 0xF4 < byte c0 then (RuneError, 1)
      else if length (c0 # s) < size_of_lead c0 then (RuneError, 1)
      else if \<not> accepted c0 (s ! 0) then (RuneError, 1)
      else if size_of_lead c0 \<le> 2 then (rune2 c0 (s ! 0), 2)
      else if \<not> continuation (s ! 1) then (RuneError, 1)
      else if size_of_lead c0 \<le> 3 then (rune3 c0 (s ! 0) (s ! 1), 3)
      else if \<not> continuation (s ! 2) then (RuneError, 1)
      else (rune4 c0 (s ! 0) (s ! 1) (s ! 2), 4))"

lemma size_of_lead_cases: "size_of_lead c = 2 \<or> size_of_lead c = 3 \<or> size_of_lead c = 4"
  by (simp add: size_of_lead_def)

declare DecodeRuneInString.simps(2) [simp del]

lemma Decode_cases [consumes 1, case_names ascii invalid two three four]:
  assumes "s \<noteq> []"
  obtains
    "byte (s ! 0) < 0x80" "DecodeRuneInString s = (byte (s ! 0), 1)"
  | "0x80 \<le> byte (s ! 0)" "DecodeRuneInString s = (RuneError, 1)"
  | "0xC2 \<le> byte (s ! 0)" "byte (s ! 0) < 0xE0" "2 \<le> length s" "accepted (s ! 0) (s ! 1)"
    "DecodeRuneInString s = (rune2 (s ! 0) (s ! 1), 2)"
  | "0xE0 \<le> byte (s ! 0)" "byte (s ! 0) < 0xF0" "3 \<le> length s" "accepted (s ! 0) (s ! 1)"
    "continuation (s ! 2)" "DecodeRuneInString s = (rune3 (s ! 0) (s ! 1) (s ! 2), 3)"
  | "0xF0 \<le> byte (s ! 0)" "byte (s ! 0) \<le> 0xF4" "4 \<le> length s" "accepted (s ! 0) (s ! 1)"
    "continuation (s ! 2)" "continuation (s ! 3)"
    "DecodeRuneInString s = (rune4 (s ! 0) (s ! 1) (s ! 2) (s ! 3), 4)"
proof -
  from assms obtain c0 t where s: "s = c0 # t" by (cases s) auto
  show ?thesis
  proof (cases "byte c0 < 0x80")
    case True
    with s that(1) show ?thesis by (simp add: DecodeRuneInString.simps(2))
  next
    case hi: False
    show ?thesis
    proof (cases "byte c0 < 0xC2 \<or> 0xF4 < byte c0")
      case True
      with hi s that(2) show ?thesis by (simp add: DecodeRuneInString.simps(2))
    next
      case lead: False
      show ?thesis
      proof (cases "length (c0 # t) < size_of_lead c0")
        case True
        with hi lead s that(2) show ?thesis by (simp add: DecodeRuneInString.simps(2))
      next
        case len: False
        show ?thesis
        proof (cases "accepted c0 (t ! 0)")
          case False
          with hi lead len s that(2) show ?thesis by (simp add: DecodeRuneInString.simps(2))
        next
          case acc: True
          show ?thesis
          proof (cases "size_of_lead c0 \<le> 2")
            case True
            with hi lead len acc have "DecodeRuneInString s = (rune2 c0 (t ! 0), 2)"
              by (simp add: s DecodeRuneInString.simps(2))
            moreover from True lead have "byte c0 < 0xE0"
              by (auto simp: size_of_lead_def split: if_splits)
            moreover from len size_of_lead_cases [of c0] have "2 \<le> length s"
              unfolding s by linarith
            ultimately show ?thesis using that(3) lead acc by (simp add: s)
          next
            case n2: False
            show ?thesis
            proof (cases "continuation (t ! 1)")
              case False
              with hi lead len acc n2 s that(2) show ?thesis
                by (simp add: DecodeRuneInString.simps(2))
            next
              case c2: True
              show ?thesis
              proof (cases "size_of_lead c0 \<le> 3")
                case True
                with hi lead len acc n2 c2
                have "DecodeRuneInString s = (rune3 c0 (t ! 0) (t ! 1), 3)"
                  by (simp add: s DecodeRuneInString.simps(2))
                moreover from True n2 have "0xE0 \<le> byte c0" "byte c0 < 0xF0"
                  by (auto simp: size_of_lead_def split: if_splits)
                moreover from len n2 have "3 \<le> length s" unfolding s by linarith
                ultimately show ?thesis using that(4) acc c2 by (simp add: s)
              next
                case n3: False
                show ?thesis
                proof (cases "continuation (t ! 2)")
                  case False
                  with hi lead len acc n2 c2 n3 s that(2) show ?thesis
                    by (simp add: DecodeRuneInString.simps(2))
                next
                  case c3: True
                  with hi lead len acc n2 c2 n3
                  have "DecodeRuneInString s = (rune4 c0 (t ! 0) (t ! 1) (t ! 2), 4)"
                    by (simp add: s DecodeRuneInString.simps(2))
                  moreover from n3 lead have "0xF0 \<le> byte c0" "byte c0 \<le> 0xF4"
                    by (auto simp: size_of_lead_def split: if_splits)
                  moreover from len n3 have "4 \<le> length s" unfolding s by linarith
                  ultimately show ?thesis using that(5) acc c2 c3 by (simp add: s)
                qed
              qed
            qed
          qed
        qed
      qed
    qed
  qed
qed

lemma Decode_width:
  assumes "s \<noteq> []"
  shows "1 \<le> snd (DecodeRuneInString s) \<and> snd (DecodeRuneInString s) \<le> length s"
  using assms by (cases s rule: Decode_cases) (auto simp: Suc_le_eq)

text \<open>
  The steps of the matcher through a text from its start: at each position the code
  point there and its width (\<open>input.step\<close>), then on at the position after it.
\<close>

function runes :: "string \<Rightarrow> (int \<times> nat) list" where
  "runes s =
     (if s = [] then []
      else DecodeRuneInString s # runes (drop (snd (DecodeRuneInString s)) s))"
  by pat_completeness auto
termination
proof (relation "measure length")
  fix s :: string
  assume "s \<noteq> []"
  then have "0 < length s" by simp
  with Decode_width [OF \<open>s \<noteq> []\<close>]
  have "length s - snd (DecodeRuneInString s) < length s" by linarith
  then show "(drop (snd (DecodeRuneInString s)) s, s) \<in> measure length" by simp
qed simp

declare runes.simps [simp del]

definition code_points :: "string \<Rightarrow> int list" where
  "code_points s = map fst (runes s)"

text \<open>
  The library's test for text that is not UTF-8: some step gives \<open>RuneError\<close> with
  width 1. (The three bytes of U+FFFD itself give \<open>RuneError\<close> with width 3.)
\<close>

definition valid_utf8 :: "string \<Rightarrow> bool" where
  "valid_utf8 s = ((RuneError, 1) \<notin> set (runes s))"

section \<open>The pattern language\<close>

text \<open>
  The program hands its patterns to the regular expression library. The expressions it
  can build are concatenations of three kinds of item, so a compiled expression is a
  list of items: a literal code point, \<open>.\<close> (one code point other than a line feed) and
  \<open>.*\<close> (a greedy run of such code points).
\<close>

datatype item = Lit int | AnyChar | AnyStar

type_synonym regexp = "item list"

text \<open>The characters \<open>regexp.QuoteMeta\<close> escapes: \<open>\.+*?()|[]{}^$\<close>.\<close>

definition special :: "char \<Rightarrow> bool" where
  "special c = (c \<in> set (backslash # ''.+*?()|[]{}^$''))"

definition QuoteMeta :: "string \<Rightarrow> string" where
  "QuoteMeta s = concat (map (\<lambda>c. if special c then [backslash, c] else [c]) s)"

text \<open>
  \<open>regexp.MustCompile(`\\\*`).ReplaceAllString(s, rep)\<close>: the expression matches the two
  bytes backslash, \<open>c\<close>; every occurrence, leftmost first and without overlap, is
  replaced by \<open>rep\<close>. (The search of the library goes code point by code point; a
  backslash is never inside the encoding of another code point, so it finds the same
  occurrences as this search byte by byte.)
\<close>

fun ReplaceAllString :: "char \<Rightarrow> string \<Rightarrow> string \<Rightarrow> string" where
  "ReplaceAllString c rep (x # y # r) =
     (if x = backslash \<and> y = c then rep @ ReplaceAllString c rep r
      else x # ReplaceAllString c rep (y # r))"
| "ReplaceAllString c rep [x] = [x]"
| "ReplaceAllString c rep [] = []"

text \<open>
  The parser of the library, on the part of its syntax that the program reaches, over
  the code points of the expression: an escaped special character is that character,
  \<open>.*\<close> and \<open>.\<close> are the two wildcards, any code point that is not a special character
  stands for itself. Everything else (a bare operator, a bracket, an escape of another
  character, a backslash at the end) is refused here, so whatever this parser accepts
  the library accepts, with this meaning.
\<close>

definition special_rune :: "int \<Rightarrow> bool" where
  "special_rune r = (r \<in> byte ` set (backslash # ''.+*?()|[]{}^$''))"

fun parse_runes :: "int list \<Rightarrow> regexp option" where
  "parse_runes [] = Some []"
| "parse_runes (c # s) =
     (if c = byte backslash then
        (case s of
           [] \<Rightarrow> None
         | d # r \<Rightarrow> if special_rune d then map_option ((#) (Lit d)) (parse_runes r) else None)
      else if c = byte CHR ''.'' then
        (case s of
           [] \<Rightarrow> Some [AnyChar]
         | d # r \<Rightarrow> if d = byte CHR ''*'' then map_option ((#) AnyStar) (parse_runes r)
                    else map_option ((#) AnyChar) (parse_runes (d # r)))
      else if special_rune c then None
      else map_option ((#) (Lit c)) (parse_runes s))"

text \<open>\<open>syntax.Parse\<close>: text that is not UTF-8 is an error (\<open>ErrInvalidUTF8\<close>).\<close>

definition parse :: "string \<Rightarrow> regexp option" where
  "parse s = (if valid_utf8 s then parse_runes (code_points s) else None)"

text \<open>
  The body of the loop of \<open>compilePatterns\<close> up to \<open>regexp.MustCompile(pattern)\<close>;
  \<open>None\<close> is the panic of \<open>MustCompile\<close>. Besides a syntax error and text that is not
  UTF-8, the library refuses an expression that it finds too large (\<open>ErrLarge\<close>). What
  it finds too large depends on its version and is not fixed here: the test is the
  parameter \<open>large\<close>.
\<close>

definition translate :: "string \<Rightarrow> string" where
  "translate p = ReplaceAllString CHR ''?'' ''.'' (ReplaceAllString CHR ''*'' ''.*'' (QuoteMeta p))"

definition compile :: "(regexp \<Rightarrow> bool) \<Rightarrow> string \<Rightarrow> regexp option" where
  "compile large p =
     (case parse (translate p) of
        None \<Rightarrow> None
      | Some re \<Rightarrow> if large re then None else Some re)"

section \<open>Matching\<close>

text \<open>
  \<open>match_here re rs\<close> is the match of \<open>re\<close> anchored at the start of the text with the
  steps \<open>rs\<close> that a backtracking search finds first (the library's leftmost-first
  rule): its length in bytes, or \<open>None\<close>. The greedy \<open>.*\<close> first tries to take one more
  code point and gives it back only when the rest of the expression then fails.
\<close>

fun match_here :: "regexp \<Rightarrow> (int \<times> nat) list \<Rightarrow> nat option" where
  "match_here [] rs = Some 0"
| "match_here (Lit c # re) [] = None"
| "match_here (Lit c # re) ((r, w) # rs) =
     (if r = c then map_option ((+) w) (match_here re rs) else None)"
| "match_here (AnyChar # re) [] = None"
| "match_here (AnyChar # re) ((r, w) # rs) =
     (if r \<noteq> byte newline then map_option ((+) w) (match_here re rs) else None)"
| "match_here (AnyStar # re) [] = match_here re []"
| "match_here (AnyStar # re) ((r, w) # rs) =
     (if r \<noteq> byte newline then
        (case match_here (AnyStar # re) rs of
           Some n \<Rightarrow> Some (w + n)
         | None \<Rightarrow> match_here re ((r, w) # rs))
      else match_here re ((r, w) # rs))"

text \<open>
  The leftmost match in the text with the steps \<open>rs\<close>, whose first byte has offset
  \<open>off\<close>: the search tries the start of every code point in turn.
\<close>

fun search :: "regexp \<Rightarrow> (int \<times> nat) list \<Rightarrow> nat \<Rightarrow> (nat \<times> nat) option" where
  "search re [] off =
     (case match_here re [] of Some n \<Rightarrow> Some (off, off + n) | None \<Rightarrow> None)"
| "search re ((r, w) # rs) off =
     (case match_here re ((r, w) # rs) of
        Some n \<Rightarrow> Some (off, off + n)
      | None \<Rightarrow> search re rs (off + w))"

text \<open>\<open>re.doExecute(..., s, pos, ...)\<close>: the leftmost match that starts at \<open>pos\<close> or later.\<close>

definition doExecute :: "regexp \<Rightarrow> string \<Rightarrow> nat \<Rightarrow> (nat \<times> nat) option" where
  "doExecute re s pos = (if pos \<le> length s then search re (runes (drop pos s)) pos else None)"

text \<open>
  The position from which \<open>allMatches\<close> searches again after the match \<open>(ms, me)\<close> found
  from \<open>pos\<close>: the end of the match, or past the next code point when the match is empty
  (past the end of the text when no code point is left).
\<close>

definition next_pos :: "string \<Rightarrow> nat \<Rightarrow> nat \<Rightarrow> nat" where
  "next_pos s pos me =
     (if me = pos then
        (if 0 < snd (DecodeRuneInString (drop pos s))
         then pos + snd (DecodeRuneInString (drop pos s))
         else length s + 1)
      else me)"

text \<open>An empty match right after the previous match is not delivered.\<close>

definition accept :: "nat \<Rightarrow> int \<Rightarrow> nat \<Rightarrow> nat \<Rightarrow> bool" where
  "accept pos prevMatchEnd ms me = (\<not> (me = pos \<and> int ms = prevMatchEnd))"

lemma runes_Nil [simp]: "runes [] = []"
  by (simp add: runes.simps [of "[]"])

lemma runes_step:
  "s \<noteq> [] \<Longrightarrow> runes s = DecodeRuneInString s # runes (drop (snd (DecodeRuneInString s)) s)"
  by (simp add: runes.simps [of s])

lemma runes_widths: "sum_list (map snd (runes s)) = length s"
proof (induction s rule: runes.induct)
  case (1 s)
  show ?case
  proof (cases "s = []")
    case True
    then show ?thesis by simp
  next
    case False
    with "1.IH" Decode_width [OF False] show ?thesis
      by (simp add: runes_step)
  qed
qed

lemma match_here_le: "match_here re rs = Some n \<Longrightarrow> n \<le> sum_list (map snd rs)"
  by (induction re rs arbitrary: n rule: match_here.induct)
     (fastforce split: if_splits option.splits)+

lemma search_bounds:
  "search re rs off = Some (ms, me) \<Longrightarrow>
   off \<le> ms \<and> ms \<le> me \<and> me \<le> off + sum_list (map snd rs)"
proof (induction rs arbitrary: off)
  case Nil
  then show ?case by (auto split: option.splits dest: match_here_le)
next
  case (Cons x rs)
  obtain r w where x: "x = (r, w)" by (cases x)
  show ?case
  proof (cases "match_here re ((r, w) # rs)")
    case None
    with Cons.prems x have "search re rs (off + w) = Some (ms, me)" by simp
    from Cons.IH [OF this] x show ?thesis by simp
  next
    case (Some n)
    with Cons.prems x match_here_le [OF Some] show ?thesis by auto
  qed
qed

lemma doExecute_bounds:
  "doExecute re s pos = Some (ms, me) \<Longrightarrow> pos \<le> ms \<and> ms \<le> me \<and> me \<le> length s"
  unfolding doExecute_def
  by (auto split: if_splits dest!: search_bounds simp: runes_widths)

lemma next_pos_gt:
  "doExecute re s pos = Some (ms, me) \<Longrightarrow> pos < next_pos s pos me"
proof -
  assume d: "doExecute re s pos = Some (ms, me)"
  then have "pos \<le> length s" by (auto simp: doExecute_def split: if_splits)
  with doExecute_bounds [OF d] show ?thesis by (auto simp: next_pos_def)
qed

text \<open>
  \<open>re.allMatches(s, nil, n, deliver)\<close>: the loop
  \<open>for pos, i, prevMatchEnd := 0, 0, -1; i < n && pos <= end; { ... }\<close>,
  returning the matches it delivers.
\<close>

function allMatches ::
  "regexp \<Rightarrow> string \<Rightarrow> nat \<Rightarrow> nat \<Rightarrow> nat \<Rightarrow> int \<Rightarrow> (nat \<times> nat) list" where
  "allMatches re s n i pos prevMatchEnd =
     (if i < n \<and> pos \<le> length s then
        (case doExecute re s pos of
           None \<Rightarrow> []
         | Some (ms, me) \<Rightarrow>
             if accept pos prevMatchEnd ms me
             then (ms, me) # allMatches re s n (i + 1) (next_pos s pos me) (int me)
             else allMatches re s n i (next_pos s pos me) (int me))
      else [])"
  by pat_completeness auto
termination
  by (relation "measure (\<lambda>(re, s, n, i, pos, prev). length s + 1 - pos)")
     (auto dest!: next_pos_gt)

declare allMatches.simps [simp del]

text \<open>
  \<open>re.FindAllStringSubmatchIndex(s, -1)\<close>: a negative \<open>n\<close> stands for \<open>len(s) + 1\<close>; each
  match is delivered as the slice of its two offsets (the expressions of the program
  have no capture group).
\<close>

definition FindAllStringSubmatchIndex :: "regexp \<Rightarrow> string \<Rightarrow> int list list" where
  "FindAllStringSubmatchIndex re s =
     map (\<lambda>(ms, me). [int ms, int me]) (allMatches re s (length s + 1) 0 0 (- 1))"

section \<open>The scanner\<close>

record MatchInfo =
  Pattern :: string
  StartIndex :: int
  EndIndex :: int

record SearchResult =
  FilePath :: string
  LineNumber :: int
  LineText :: string
  Repository :: string
  MatchInfo :: MatchInfo

text \<open>The field \<open>Pattern\<close> of a \<open>Query\<close> is \<open>QPattern\<close> here, apart from that of \<open>MatchInfo\<close>.\<close>

record Query =
  QPattern :: string
  Extensions :: "string list"

text \<open>\<open>findMatchPositions\<close>: one \<open>MatchInfo\<close> for each match of at least two offsets.\<close>

definition findMatchPositions :: "string \<Rightarrow> regexp \<Rightarrow> string \<Rightarrow> MatchInfo list" where
  "findMatchPositions line pattern originalPattern =
     map (\<lambda>m. \<lparr>Pattern = originalPattern, StartIndex = m ! 0, EndIndex = m ! 1\<rparr>)
       (filter (\<lambda>m. length m \<ge> 2) (FindAllStringSubmatchIndex pattern line))"

datatype error = RegexpPanic | IndexOutOfRange

text \<open>
  \<open>compilePatterns\<close>: the loop over the queries, with the three results as accumulators.
  The extension set is a Go \<open>map[string]bool\<close>, read with \<open>false\<close> for a missing key: a
  function to \<open>bool\<close>. \<open>Inl RegexpPanic\<close> is the panic of \<open>regexp.MustCompile\<close>; \<open>large\<close>
  is the library's test for an expression that is too large.
\<close>

fun compileLoop ::
  "(regexp \<Rightarrow> bool) \<Rightarrow> Query list \<Rightarrow> regexp list \<Rightarrow> string list \<Rightarrow> (string \<Rightarrow> bool) \<Rightarrow>
   error + (regexp list \<times> string list \<times> (string \<Rightarrow> bool))" where
  "compileLoop large [] patterns originalPatterns extensions =
     Inr (patterns, originalPatterns, extensions)"
| "compileLoop large (q # qs) patterns originalPatterns extensions =
     (case compile large (QPattern q) of
        None \<Rightarrow> Inl RegexpPanic
      | Some re \<Rightarrow>
          compileLoop large qs (patterns @ [re]) (originalPatterns @ [QPattern q])
            (fold (\<lambda>ext m. m(ext := True)) (Extensions q) extensions))"

definition compilePatterns ::
  "(regexp \<Rightarrow> bool) \<Rightarrow> Query list \<Rightarrow>
   error + (regexp list \<times> string list \<times> (string \<Rightarrow> bool))" where
  "compilePatterns large queries = compileLoop large queries [] [] (\<lambda>ext. False)"

subsection \<open>Reading a file line by line\<close>

text \<open>\<open>scanner.Buffer(make([]byte, 1024*1024), 10*1024*1024)\<close>: the largest token.\<close>

definition maxTokenSize :: int where
  "maxTokenSize = 10 * 1024 * 1024"

definition dropCR :: "string \<Rightarrow> string" where
  "dropCR line = (if line \<noteq> [] \<and> last line = carriage_return then butlast line else line)"

lemma length_tl_dropWhile: "data \<noteq> [] \<Longrightarrow> length (tl (dropWhile P data)) < length data"
proof -
  assume "data \<noteq> []"
  then have pos: "0 < length data" by simp
  have tl: "length (tl (dropWhile P data)) = length (dropWhile P data) - 1"
    by (rule length_tl)
  have le: "length (dropWhile P data) \<le> length data"
    by (rule length_dropWhile_le)
  from pos tl le show ?thesis by arith
qed

text \<open>
  The lines that \<open>scanner.Scan()\<close> and \<open>scanner.Text()\<close> yield with the default split
  function \<open>bufio.ScanLines\<close>: the text up to the next line feed, without one trailing
  carriage return; a last line without line feed counts when it is not empty. A line
  that does not fit the buffer ends the scan (\<open>Scan\<close> returns \<open>false\<close>), with the lines
  before it already delivered.
\<close>

function scanLines :: "string \<Rightarrow> string list" where
  "scanLines data =
     (if data = [] then []
      else if int (length (takeWhile (\<lambda>c. c \<noteq> newline) data)) \<ge> maxTokenSize then []
      else dropCR (takeWhile (\<lambda>c. c \<noteq> newline) data)
             # scanLines (tl (dropWhile (\<lambda>c. c \<noteq> newline) data)))"
  by pat_completeness auto
termination
  by (relation "measure length") (simp_all add: length_tl_dropWhile del: length_tl)

declare scanLines.simps [simp del]

text \<open>
  The inner loop of \<open>scanFile\<close>, \<open>for i, pattern := range patterns\<close>, on one line;
  \<open>originalPatterns[i]\<close> panics when \<open>i\<close> is out of range. A panic in a scan task ends
  the whole process before any report is written, so the results sent before it are
  not kept.
\<close>

fun scanPatterns ::
  "string \<Rightarrow> string \<Rightarrow> int \<Rightarrow> string \<Rightarrow> nat \<Rightarrow> regexp list \<Rightarrow> string list \<Rightarrow>
   error + SearchResult list" where
  "scanPatterns filePath repository lineNum line i [] originalPatterns = Inr []"
| "scanPatterns filePath repository lineNum line i (pattern # patterns) originalPatterns =
     (if i < length originalPatterns then
        (case scanPatterns filePath repository lineNum line (i + 1) patterns originalPatterns of
           Inl e \<Rightarrow> Inl e
         | Inr rs \<Rightarrow>
             Inr (map (\<lambda>m. \<lparr>FilePath = filePath, LineNumber = lineNum, LineText = line,
                             Repository = repository, MatchInfo = m\<rparr>)
                    (findMatchPositions line pattern (originalPatterns ! i)) @ rs))
      else Inl IndexOutOfRange)"

text \<open>The outer loop, \<open>for scanner.Scan() { lineNum++; ... }\<close>.\<close>

fun scanLoop ::
  "string \<Rightarrow> string \<Rightarrow> regexp list \<Rightarrow> string list \<Rightarrow> int \<Rightarrow> string list \<Rightarrow>
   error + SearchResult list" where
  "scanLoop filePath repository patterns originalPatterns lineNum [] = Inr []"
| "scanLoop filePath repository patterns originalPatterns lineNum (line # rest) =
     (case scanPatterns filePath repository (lineNum + 1) line 0 patterns originalPatterns of
        Inl e \<Rightarrow> Inl e
      | Inr rs \<Rightarrow>
          (case scanLoop filePath repository patterns originalPatterns (lineNum + 1) rest of
             Inl e \<Rightarrow> Inl e
           | Inr rs' \<Rightarrow> Inr (rs @ rs')))"

text \<open>
  \<open>scanFile\<close>. The files that can be opened are a map from paths to contents:
  \<open>os.Open(filePath)\<close> fails exactly when the map has no entry. The result is the
  sequence of values sent on the result channel.
\<close>

definition scanFile ::
  "(string \<rightharpoonup> string) \<Rightarrow> string \<Rightarrow> regexp list \<Rightarrow> string list \<Rightarrow> string \<Rightarrow>
   error + SearchResult list" where
  "scanFile files filePath patterns originalPatterns repository =
     (case files filePath of
        None \<Rightarrow> Inr []
      | Some data \<Rightarrow> scanLoop filePath repository patterns originalPatterns 0 (scanLines data))"

subsection \<open>Walking a repository\<close>

text \<open>
  \<open>filepath.Ext\<close>: the suffix from the last dot of the last path element, empty without
  a dot. The loop runs from the end of the path; here it runs over the reversed path,
  collecting what it has passed.
\<close>

fun ext_loop :: "string \<Rightarrow> string \<Rightarrow> string" where
  "ext_loop [] passed = []"
| "ext_loop (c # front) passed =
     (if c = CHR ''/'' then []
      else if c = CHR ''.'' then c # passed
      else ext_loop front (c # passed))"

definition Ext :: "string \<Rightarrow> string" where
  "Ext path = ext_loop (rev path) []"

text \<open>
  One call of the function that \<open>walkRepository\<close> passes to \<open>filepath.Walk\<close>: the path,
  whether the walk reports an error for it, and \<open>info.IsDir()\<close>.
\<close>

record visit =
  vpath :: string
  verr :: bool
  vIsDir :: bool

text \<open>Whether the call starts a scan task.\<close>

definition schedules :: "(string \<Rightarrow> bool) \<Rightarrow> visit \<Rightarrow> bool" where
  "schedules extensions v = (if verr v then False else \<not> vIsDir v \<and> extensions (Ext (vpath v)))"

text \<open>
  \<open>walkRepository\<close>, given the calls that \<open>filepath.Walk\<close> makes for the repository, in
  order: the scan tasks it starts, each the file path and the repository name.
\<close>

definition walkRepository :: "visit list \<Rightarrow> string \<Rightarrow> (string \<Rightarrow> bool) \<Rightarrow> (string \<times> string) list" where
  "walkRepository visits repository extensions =
     map (\<lambda>v. (vpath v, repository)) (filter (schedules extensions) visits)"

subsection \<open>The coordinator\<close>

text \<open>
  What \<open>main\<close> reads from the file system: the entries of \<open>./repos\<close> (name and
  \<open>IsDir()\<close>), for every root the calls that \<open>filepath.Walk\<close> makes there, and the
  contents of the files that can be opened.
\<close>

record world =
  repositories :: "(string \<times> bool) list"
  walk :: "string \<Rightarrow> visit list"
  files :: "string \<rightharpoonup> string"

text \<open>\<open>filepath.Join(reposDir, repo.Name())\<close> with \<open>reposDir = filepath.Join(".", "repos")\<close>.\<close>

definition repoPath :: "string \<Rightarrow> string" where
  "repoPath name = ''repos/'' @ name"

text \<open>
  \<open>main\<close> starts one task with \<open>go func() { ... }()\<close>. What that task does, in its
  program order: for each directory of \<open>./repos\<close> it prints the name and walks the
  repository, starting a scan task for every scheduled file; after the loop it waits for
  the scan tasks and closes the result channel.
\<close>

datatype event = Announce string | Spawn string string | WaitAll | CloseChannel

definition walkBlock :: "world \<Rightarrow> (string \<Rightarrow> bool) \<Rightarrow> string \<times> bool \<Rightarrow> event list" where
  "walkBlock w extensions repo =
     (if snd repo then
        Announce (fst repo)
          # map (\<lambda>(path, repository). Spawn path repository)
              (walkRepository (walk w (repoPath (fst repo))) (fst repo) extensions)
      else [])"

definition walker :: "world \<Rightarrow> (string \<Rightarrow> bool) \<Rightarrow> event list" where
  "walker w extensions =
     concat (map (walkBlock w extensions) (repositories w)) @ [WaitAll, CloseChannel]"

text \<open>The scan tasks started, in the order of their start.\<close>

fun spawned :: "event list \<Rightarrow> (string \<times> string) list" where
  "spawned [] = []"
| "spawned (Spawn path repository # es) = (path, repository) # spawned es"
| "spawned (e # es) = spawned es"

text \<open>What each scan task sends on the result channel.\<close>

definition outputs ::
  "world \<Rightarrow> regexp list \<Rightarrow> string list \<Rightarrow> (string \<times> string) list \<Rightarrow>
   (error + SearchResult list) list" where
  "outputs w patterns originalPatterns tasks =
     map (\<lambda>(path, repository). scanFile (files w) path patterns originalPatterns repository) tasks"

text \<open>
  The scan tasks run concurrently and send to one channel: the order in which \<open>main\<close>
  receives is some interleaving of what the tasks send, each task's own order kept.
\<close>

fun interleavings :: "'a list list \<Rightarrow> 'a list set" where
  "interleavings [] = {[]}"
| "interleavings (t # ts) = (\<Union>rest \<in> interleavings ts. shuffles t rest)"

text \<open>
  \<open>collects large w queries results\<close>: a run of \<open>main\<close> on \<open>w\<close> with these queries, in
  which every scan task opens its file whenever the file can be opened at all, can end
  with \<open>results\<close> as the slice handed to \<open>writeResults\<close>. A panic in the compilation or
  in a scan task ends the process without one.
\<close>

definition collects ::
  "(regexp \<Rightarrow> bool) \<Rightarrow> world \<Rightarrow> Query list \<Rightarrow> SearchResult list \<Rightarrow> bool" where
  "collects large w queries results =
     (case compilePatterns large queries of
        Inl e \<Rightarrow> False
      | Inr (patterns, originalPatterns, extensions) \<Rightarrow>
          list_all (\<lambda>out. \<not> isl out)
            (outputs w patterns originalPatterns (spawned (walker w extensions)))
          \<and> results \<in> interleavings
              (map projr (outputs w patterns originalPatterns (spawned (walker w extensions)))))"

section \<open>What the specification says, as definitions\<close>

text \<open>
  The translation of one code point of a pattern: \<open>*\<close> is any run of characters, \<open>?\<close> is
  one character, every other code point stands for itself.
\<close>

definition wildcard_item :: "int \<Rightarrow> item" where
  "wildcard_item r =
     (if r = byte CHR ''*'' then AnyStar else if r = byte CHR ''?'' then AnyChar else Lit r)"

text \<open>
  The occurrences of the literal text \<open>P\<close> in \<open>L\<close> from \<open>pos\<close> on, as byte offsets, left to
  right and without overlap: the search goes on at the end of each occurrence, and one
  byte further when the occurrence is empty.
\<close>

function occurrences :: "string \<Rightarrow> string \<Rightarrow> nat \<Rightarrow> (nat \<times> nat) list" where
  "occurrences P L pos =
     (if pos + length P \<le> length L then
        (if take (length P) (drop pos L) = P
         then (pos, pos + length P) # occurrences P L (pos + max 1 (length P))
         else occurrences P L (pos + 1))
      else [])"
  by pat_completeness auto
termination
  by (relation "measure (\<lambda>(P, L, pos). length L + 1 - pos)") auto

declare occurrences.simps [simp del]

text \<open>
  The offsets at which the code points of a text start, and the offset of its end, for
  the text with the steps \<open>rs\<close> whose first byte has offset \<open>off\<close>.
\<close>

fun boundaries :: "(int \<times> nat) list \<Rightarrow> nat \<Rightarrow> nat list" where
  "boundaries [] off = [off]"
| "boundaries ((r, w) # rs) off = off # boundaries rs (off + w)"

text \<open>
  The results of a file, line by line with the lines numbered from 1, for each line
  pattern by pattern in the order of the queries, one result for each match.
\<close>

definition expected_results ::
  "string \<Rightarrow> string \<Rightarrow> (regexp \<times> string) list \<Rightarrow> string list \<Rightarrow> SearchResult list" where
  "expected_results filePath repository compiled lines =
     concat (map (\<lambda>(k, line).
         concat (map (\<lambda>(re, original).
             map (\<lambda>m. \<lparr>FilePath = filePath, LineNumber = int k + 1, LineText = line,
                        Repository = repository, MatchInfo = m\<rparr>)
               (findMatchPositions line re original)) compiled))
       (enumerate 0 lines))"

text \<open>
  The file system with every entry for \<open>path\<close> taken out of the walks: the world in
  which that file is not there.
\<close>

definition without_path :: "world \<Rightarrow> string \<Rightarrow> world" where
  "without_path w path = w\<lparr>walk := \<lambda>root. filter (\<lambda>v. vpath v \<noteq> path) (walk w root)\<rparr>"

text \<open>
  The text that the two replacements leave for one pattern character: after the first
  replacement, and after both.
\<close>

definition render_star :: "char \<Rightarrow> string" where
  "render_star c = (if c = CHR ''*'' then ''.*'' else if special c then [backslash, c] else [c])"

definition render :: "char \<Rightarrow> string" where
  "render c = (if c = CHR ''*'' then ''.*'' else if c = CHR ''?'' then ''.''
     else if special c then [backslash, c] else [c])"

text \<open>The value that \<open>scanFile\<close> sends for a match.\<close>

abbreviation mkResult :: "string \<Rightarrow> string \<Rightarrow> int \<Rightarrow> string \<Rightarrow> MatchInfo \<Rightarrow> SearchResult" where
  "mkResult fp repo k line m \<equiv>
     \<lparr>FilePath = fp, LineNumber = k, LineText = line, Repository = repo, MatchInfo = m\<rparr>"

text \<open>The same for one code point of the pattern, as code points of the expression.\<close>

definition render_cp :: "int \<Rightarrow> int list" where
  "render_cp r =
     (if r = byte CHR ''*'' then [byte CHR ''.'', byte CHR ''*'']
      else if r = byte CHR ''?'' then [byte CHR ''.'']
      else if special_rune r then [byte backslash, r] else [r])"

text \<open>The same for one step through the pattern, as steps through the expression.\<close>

definition render_rune :: "int \<times> nat \<Rightarrow> (int \<times> nat) list" where
  "render_rune x = (if fst x < 0x80 then map (\<lambda>r. (r, 1)) (render_cp (fst x)) else [x])"

section \<open>Runs of the scan tasks with a bound on the open files\<close>

text \<open>
  A scan task is the body of \<open>scanFile\<close> in a task of its own: it opens its file, sends
  its results one by one and closes the file on return (\<open>defer file.Close()\<close>). The
  tasks are not limited in number, and a process can hold only so many files open at
  one time: \<open>os.Open\<close> fails while \<open>limit\<close> files are open, like it fails for a file that
  cannot be opened at all, and \<open>scanFile\<close> returns at once.

  A task has not yet reached \<open>os.Open\<close>, or holds its file open with results still to
  send, or has returned, or has panicked.
\<close>

datatype task = Waiting string string | Sending "SearchResult list" | Returned | Panicked

definition open_files :: "task list \<Rightarrow> nat" where
  "open_files ts = length (filter (\<lambda>t. case t of Sending rs \<Rightarrow> True | _ \<Rightarrow> False) ts)"

text \<open>
  One step of task \<open>i\<close>: the call of \<open>os.Open\<close> with what follows up to the first send,
  one send on the result channel (received by \<open>main\<close> in the order of the sends), or the
  return.
\<close>

fun step ::
  "nat \<Rightarrow> (string \<rightharpoonup> string) \<Rightarrow> regexp list \<Rightarrow> string list \<Rightarrow> nat \<Rightarrow>
   task list \<times> SearchResult list \<Rightarrow> task list \<times> SearchResult list" where
  "step limit fs patterns originalPatterns i (ts, received) =
     (if i < length ts then
        (case ts ! i of
           Waiting path repository \<Rightarrow>
             if limit \<le> open_files ts \<or> fs path = None then (ts[i := Returned], received)
             else (case scanFile fs path patterns originalPatterns repository of
                     Inl e \<Rightarrow> (ts[i := Panicked], received)
                   | Inr rs \<Rightarrow> (ts[i := Sending rs], received))
         | Sending rs \<Rightarrow>
             (case rs of
                [] \<Rightarrow> (ts[i := Returned], received)
              | r # rest \<Rightarrow> (ts[i := Sending rest], received @ [r]))
         | Returned \<Rightarrow> (ts, received)
         | Panicked \<Rightarrow> (ts, received))
      else (ts, received))"




section \<open>Example inputs\<close>

text \<open>A size test: an expression of more than \<open>n\<close> items is too large.\<close>

definition larger_than :: "nat \<Rightarrow> regexp \<Rightarrow> bool" where
  "larger_than n re = (n < length re)"

definition todo_queries :: "Query list" where
  "todo_queries = [\<lparr>QPattern = ''TODO:'', Extensions = [''.go'']\<rparr>]"

definition todo_re :: regexp where
  "todo_re = map (\<lambda>c. Lit (byte c)) ''TODO:''"

definition single_file_world :: world where
  "single_file_world =
     \<lparr>repositories = [(''r'', True)],
      walk = (\<lambda>root. if root = ''repos/r'' then
                [\<lparr>vpath = ''repos/r'', verr = False, vIsDir = True\<rparr>,
                 \<lparr>vpath = ''repos/r/x.go'', verr = False, vIsDir = False\<rparr>]
              else []),
      files = [''repos/r/x.go'' \<mapsto> ''line1'' @ newline # ''TODO: fix'' @ newline # ''line3'']\<rparr>"

definition two_repo_world :: world where
  "two_repo_world =
     \<lparr>repositories = [(''a'', True), (''notes.txt'', False), (''b'', True)],
      walk = (\<lambda>root.
         if root = ''repos/a'' then
           [\<lparr>vpath = ''repos/a'', verr = False, vIsDir = True\<rparr>,
            \<lparr>vpath = ''repos/a/x.go'', verr = False, vIsDir = False\<rparr>]
         else if root = ''repos/b'' then
           [\<lparr>vpath = ''repos/b'', verr = False, vIsDir = True\<rparr>,
            \<lparr>vpath = ''repos/b/gone.go'', verr = False, vIsDir = False\<rparr>,
            \<lparr>vpath = ''repos/b/y.go'', verr = False, vIsDir = False\<rparr>]
         else []),
      files = [''repos/a/x.go'' \<mapsto> ''TODO: a'', ''repos/b/y.go'' \<mapsto> ''TODO: b'']\<rparr>"

definition two_queries :: "Query list" where
  "two_queries = [\<lparr>QPattern = ''b*'', Extensions = [''.go'']\<rparr>,
                  \<lparr>QPattern = ''a'', Extensions = [''.py'']\<rparr>]"

definition ts_queries :: "Query list" where
  "ts_queries = [\<lparr>QPattern = ''TODO:'', Extensions = [''.ts'']\<rparr>]"

definition ts_world :: world where
  "ts_world =
     \<lparr>repositories = [(''r'', True)],
      walk = (\<lambda>root. if root = ''repos/r'' then
                [\<lparr>vpath = ''repos/r'', verr = False, vIsDir = True\<rparr>,
                 \<lparr>vpath = ''repos/r/foo.TS'', verr = False, vIsDir = False\<rparr>,
                 \<lparr>vpath = ''repos/r/foo.ts'', verr = False, vIsDir = False\<rparr>,
                 \<lparr>vpath = ''repos/r/sub.ts'', verr = False, vIsDir = True\<rparr>]
              else []),
      files = [''repos/r/foo.TS'' \<mapsto> ''TODO: upper'', ''repos/r/foo.ts'' \<mapsto> ''TODO: lower'']\<rparr>"

text \<open>The encodings of U+FFFD and of U+00E9, and a byte that starts no encoding.\<close>

definition replacement_character :: string where
  "replacement_character = [CHR 0xEF, CHR 0xBF, CHR 0xBD]"

definition e_acute :: string where
  "e_acute = [CHR 0xC3, CHR 0xA9]"

definition stray_byte :: string where
  "stray_byte = [CHR 0xFF]"

section \<open>The decoder\<close>

text \<open>
  The code points of the encodings of two, three and four bytes lie in disjoint ranges
  above the ASCII range, every byte after the first of an encoding is a continuation
  byte and the first is none, and the bytes of a well-formed encoding determine the
  code point and are determined by it.
\<close>

lemma byte_range: "0 \<le> byte c \<and> byte c < 256"
  by (simp add: byte_def of_char_def)

lemma byte_inj: "byte a = byte b \<Longrightarrow> a = b"
  by (simp add: byte_def)

lemma accepted_continuation: "accepted c0 c1 \<Longrightarrow> continuation c1"
  by (auto simp: accepted_def continuation_def split: if_splits)

lemma mod64: "0x80 \<le> a \<Longrightarrow> a \<le> 0xBF \<Longrightarrow> a mod 64 = a - (128::int)"
  by presburger

lemma mod32: "0xC0 \<le> a \<Longrightarrow> a < 0xE0 \<Longrightarrow> a mod 32 = a - (192::int)"
  by presburger

lemma mod16: "0xE0 \<le> a \<Longrightarrow> a < 0xF0 \<Longrightarrow> a mod 16 = a - (224::int)"
  by presburger

lemma mod8: "0xF0 \<le> a \<Longrightarrow> a < 0xF8 \<Longrightarrow> a mod 8 = a - (240::int)"
  by presburger

lemma accepted_range: "accepted c0 c1 \<Longrightarrow> 0x80 \<le> byte c1 \<and> byte c1 \<le> 0xBF"
  by (auto simp: accepted_def split: if_splits)

lemma continuation_range: "continuation c \<Longrightarrow> 0x80 \<le> byte c \<and> byte c \<le> 0xBF"
  by (simp add: continuation_def)

lemma rune2_eq:
  "0xC2 \<le> byte c0 \<Longrightarrow> byte c0 < 0xE0 \<Longrightarrow> accepted c0 c1 \<Longrightarrow>
   rune2 c0 c1 = (byte c0 - 192) * 64 + (byte c1 - 128)"
  using accepted_range [of c0 c1] by (simp add: rune2_def mod64 mod32)

lemma rune3_eq:
  "0xE0 \<le> byte c0 \<Longrightarrow> byte c0 < 0xF0 \<Longrightarrow> accepted c0 c1 \<Longrightarrow> continuation c2 \<Longrightarrow>
   rune3 c0 c1 c2 = (byte c0 - 224) * 4096 + (byte c1 - 128) * 64 + (byte c2 - 128)"
  using accepted_range [of c0 c1] continuation_range [of c2]
  by (simp add: rune3_def mod64 mod16)

lemma rune4_eq:
  "0xF0 \<le> byte c0 \<Longrightarrow> byte c0 \<le> 0xF4 \<Longrightarrow> accepted c0 c1 \<Longrightarrow> continuation c2 \<Longrightarrow>
   continuation c3 \<Longrightarrow>
   rune4 c0 c1 c2 c3 =
     (byte c0 - 240) * 262144 + (byte c1 - 128) * 4096 + (byte c2 - 128) * 64 + (byte c3 - 128)"
  using accepted_range [of c0 c1] continuation_range [of c2] continuation_range [of c3]
  by (simp add: rune4_def mod64 mod8)

lemma rune2_range:
  "0xC2 \<le> byte c0 \<Longrightarrow> byte c0 < 0xE0 \<Longrightarrow> accepted c0 c1 \<Longrightarrow>
   0x80 \<le> rune2 c0 c1 \<and> rune2 c0 c1 < 0x800"
  using accepted_range [of c0 c1] by (simp add: rune2_eq)

lemma rune3_range:
  "0xE0 \<le> byte c0 \<Longrightarrow> byte c0 < 0xF0 \<Longrightarrow> accepted c0 c1 \<Longrightarrow> continuation c2 \<Longrightarrow>
   0x800 \<le> rune3 c0 c1 c2 \<and> rune3 c0 c1 c2 < 0x10000"
  using continuation_range [of c2]
  by (auto simp: rune3_eq accepted_def split: if_splits)

lemma rune4_range:
  "0xF0 \<le> byte c0 \<Longrightarrow> byte c0 \<le> 0xF4 \<Longrightarrow> accepted c0 c1 \<Longrightarrow> continuation c2 \<Longrightarrow>
   continuation c3 \<Longrightarrow> 0x10000 \<le> rune4 c0 c1 c2 c3"
  using continuation_range [of c2] continuation_range [of c3]
  by (auto simp: rune4_eq accepted_def split: if_splits)

lemma base64_unique:
  assumes "q * 64 + d = q' * 64 + d'" "0 \<le> d" "d < 64" "0 \<le> d'" "d' < 64"
  shows "q = q' \<and> d = (d'::int)"
proof -
  have "(q * 64 + d) mod 64 = d mod 64" "(q' * 64 + d') mod 64 = d' mod 64"
    by (simp_all add: mod_simps)
  moreover have "d mod 64 = d" "d' mod 64 = d'"
    using assms by simp_all
  ultimately have d: "d = d'" using assms(1) by simp
  with assms(1) show ?thesis by simp
qed

lemma digits2:
  "(a0 - 192) * 64 + (a1 - 128) = (b0 - 192) * 64 + (b1 - 128) \<Longrightarrow>
   128 \<le> a1 \<Longrightarrow> a1 \<le> 191 \<Longrightarrow> 128 \<le> b1 \<Longrightarrow> b1 \<le> 191 \<Longrightarrow> a0 = b0 \<and> a1 = (b1::int)"
  using base64_unique [of "a0 - 192" "a1 - 128" "b0 - 192" "b1 - 128"] by simp

lemma digits3:
  assumes "(a0 - 224) * 4096 + (a1 - 128) * 64 + (a2 - 128)
     = (b0 - 224) * 4096 + (b1 - 128) * 64 + (b2 - 128)"
    "128 \<le> a1" "a1 \<le> 191" "128 \<le> b1" "b1 \<le> 191"
    "128 \<le> a2" "a2 \<le> 191" "128 \<le> b2" "b2 \<le> 191"
  shows "a0 = b0 \<and> a1 = b1 \<and> a2 = (b2::int)"
proof -
  from assms(1) have "((a0 - 224) * 64 + (a1 - 128)) * 64 + (a2 - 128)
      = ((b0 - 224) * 64 + (b1 - 128)) * 64 + (b2 - 128)" by (simp add: algebra_simps)
  from base64_unique [OF this] assms have
    "(a0 - 224) * 64 + (a1 - 128) = (b0 - 224) * 64 + (b1 - 128)" "a2 = b2" by simp_all
  from base64_unique [OF this(1)] assms this(2) show ?thesis by simp
qed

lemma digits4:
  assumes "(a0 - 240) * 262144 + (a1 - 128) * 4096 + (a2 - 128) * 64 + (a3 - 128)
     = (b0 - 240) * 262144 + (b1 - 128) * 4096 + (b2 - 128) * 64 + (b3 - 128)"
    "128 \<le> a1" "a1 \<le> 191" "128 \<le> b1" "b1 \<le> 191"
    "128 \<le> a2" "a2 \<le> 191" "128 \<le> b2" "b2 \<le> 191"
    "128 \<le> a3" "a3 \<le> 191" "128 \<le> b3" "b3 \<le> 191"
  shows "a0 = b0 \<and> a1 = b1 \<and> a2 = b2 \<and> a3 = (b3::int)"
proof -
  from assms(1) have "(((a0 - 240) * 64 + (a1 - 128)) * 64 + (a2 - 128)) * 64 + (a3 - 128)
      = (((b0 - 240) * 64 + (b1 - 128)) * 64 + (b2 - 128)) * 64 + (b3 - 128)"
    by (simp add: algebra_simps)
  from base64_unique [OF this] assms have
    "((a0 - 240) * 64 + (a1 - 128)) * 64 + (a2 - 128)
      = ((b0 - 240) * 64 + (b1 - 128)) * 64 + (b2 - 128)" "a3 = b3" by simp_all
  from base64_unique [OF this(1)] assms this(2) have
    "(a0 - 240) * 64 + (a1 - 128) = (b0 - 240) * 64 + (b1 - 128)" "a2 = b2" "a3 = b3"
    by simp_all
  from base64_unique [OF this(1)] assms this(2,3) show ?thesis by simp
qed

lemma hd_nth0: "s \<noteq> [] \<Longrightarrow> hd s = s ! 0"
  by (cases s) simp_all

lemma RuneError_large: "0x80 \<le> RuneError"
  by (simp add: RuneError_def)

lemma Decode_ascii: "byte c < 0x80 \<Longrightarrow> DecodeRuneInString (c # s) = (byte c, 1)"
  by (simp add: DecodeRuneInString.simps(2))

lemma Decode_continuations:
  assumes "DecodeRuneInString s = (r, w)" "0 < k" "k < w"
  shows "continuation (s ! k)"
proof -
  from assms have ne: "s \<noteq> []" by (cases s) auto
  from ne show ?thesis
  proof (cases s rule: Decode_cases)
    case two
    with assms have "k = 1" by simp
    with two show ?thesis by (simp add: accepted_continuation)
  next
    case three
    with assms have "k = 1 \<or> k = 2" by auto
    with three show ?thesis by (auto simp: accepted_continuation)
  next
    case four
    with assms have "k = 1 \<or> k = 2 \<or> k = 3" by auto
    with four show ?thesis by (auto simp: accepted_continuation)
  qed (use assms in auto)
qed

lemma Decode_nonascii:
  assumes "s \<noteq> []" "0x80 \<le> byte (s ! 0)"
  shows "0x80 \<le> fst (DecodeRuneInString s)"
  using assms(1)
proof (cases s rule: Decode_cases)
  case ascii
  with assms show ?thesis by simp
next
  case invalid
  then show ?thesis by (simp add: RuneError_large)
next
  case two
  then show ?thesis using rune2_range [of "s ! 0" "s ! 1"] assms by (simp add: hd_nth0)
next
  case three
  then show ?thesis using rune3_range [of "s ! 0" "s ! 1" "s ! 2"] assms by (simp add: hd_nth0)
next
  case four
  then show ?thesis using rune4_range [of "s ! 0" "s ! 1" "s ! 2" "s ! 3"] assms
    by (simp add: hd_nth0)
qed

lemma Decode_small:
  assumes "s \<noteq> []" "fst (DecodeRuneInString s) < 0x80"
  shows "byte (s ! 0) = fst (DecodeRuneInString s) \<and> snd (DecodeRuneInString s) = 1"
proof -
  from Decode_nonascii [OF assms(1)] assms(2) have "byte (s ! 0) < 0x80" by fastforce
  with assms(1) show ?thesis by (cases s) (simp_all add: Decode_ascii)
qed

lemma Decode_lead:
  assumes "s \<noteq> []" "fst (DecodeRuneInString s) \<noteq> RuneError"
  shows "\<not> continuation (s ! 0)"
  using assms(1)
proof (cases s rule: Decode_cases)
  case invalid
  with assms show ?thesis by simp
qed (auto simp: continuation_def hd_nth0)

lemma Decode_two:
  assumes "0xC2 \<le> byte (t ! 0)" "byte (t ! 0) < 0xE0" "2 \<le> length t" "accepted (t ! 0) (t ! 1)"
  shows "DecodeRuneInString t = (rune2 (t ! 0) (t ! 1), 2)"
proof -
  from assms(3) obtain c0 c1 r where t: "t = c0 # c1 # r"
    by (cases t; cases "tl t") auto
  with assms show ?thesis by (simp add: DecodeRuneInString.simps(2) size_of_lead_def)
qed

lemma Decode_three:
  assumes "0xE0 \<le> byte (t ! 0)" "byte (t ! 0) < 0xF0" "3 \<le> length t" "accepted (t ! 0) (t ! 1)"
    "continuation (t ! 2)"
  shows "DecodeRuneInString t = (rune3 (t ! 0) (t ! 1) (t ! 2), 3)"
proof -
  from assms(3) obtain c0 c1 c2 r where t: "t = c0 # c1 # c2 # r"
    by (cases t; cases "tl t"; cases "tl (tl t)") auto
  with assms show ?thesis by (simp add: DecodeRuneInString.simps(2) size_of_lead_def)
qed

lemma Decode_four:
  assumes "0xF0 \<le> byte (t ! 0)" "byte (t ! 0) \<le> 0xF4" "4 \<le> length t" "accepted (t ! 0) (t ! 1)"
    "continuation (t ! 2)" "continuation (t ! 3)"
  shows "DecodeRuneInString t = (rune4 (t ! 0) (t ! 1) (t ! 2) (t ! 3), 4)"
proof -
  from assms(3) obtain c0 c1 c2 c3 r where t: "t = c0 # c1 # c2 # c3 # r"
    by (cases t; cases "tl t"; cases "tl (tl t)"; cases "tl (tl (tl t))") auto
  with assms show ?thesis by (simp add: DecodeRuneInString.simps(2) size_of_lead_def)
qed

lemma take_eq_len: "take w t = take w s \<Longrightarrow> w \<le> length s \<Longrightarrow> w \<le> length t"
proof -
  assume "take w t = take w s" "w \<le> length s"
  then have "length (take w t) = w" by simp
  then show ?thesis by simp
qed

lemma take_eq_nth: "take w t = take w s \<Longrightarrow> i < w \<Longrightarrow> t ! i = s ! i"
proof -
  assume "take w t = take w s" "i < w"
  then have "take w t ! i = take w s ! i" by simp
  with \<open>i < w\<close> show ?thesis by simp
qed

lemma Decode_prefix:
  assumes d: "DecodeRuneInString s = (r, w)" and ne: "s \<noteq> []"
    and valid: "\<not> (r = RuneError \<and> w = 1)" and tk: "take w t = take w s"
  shows "DecodeRuneInString t = (r, w)"
  using ne
proof (cases s rule: Decode_cases)
  case ascii
  with d have w: "w = 1" and r: "r = byte (s ! 0)" by simp_all
  from ne have "1 \<le> length s" by (cases s) auto
  with tk w have "1 \<le> length t" by (simp add: take_eq_len)
  moreover from tk w have "t ! 0 = s ! 0" by (simp add: take_eq_nth)
  ultimately obtain rest where "t = s ! 0 # rest" using ne by (cases t) (auto simp: hd_nth0)
  with ascii r w show ?thesis by (simp add: Decode_ascii)
next
  case invalid
  with d valid show ?thesis by simp
next
  case two
  with d have w: "w = 2" and r: "r = rune2 (s ! 0) (s ! 1)" by simp_all
  from tk w two(3) have len: "2 \<le> length t" by (simp add: take_eq_len)
  from tk w have n: "t ! 0 = s ! 0" "t ! Suc 0 = s ! Suc 0" by (simp_all add: take_eq_nth)
  have "DecodeRuneInString t = (rune2 (t ! 0) (t ! 1), 2)"
    using two ne len by (intro Decode_two) (simp_all add: n hd_nth0)
  then show ?thesis by (simp add: n r w)
next
  case three
  with d have w: "w = 3" and r: "r = rune3 (s ! 0) (s ! 1) (s ! 2)" by simp_all
  from tk w three(3) have len: "3 \<le> length t" by (simp add: take_eq_len)
  from tk w have n: "t ! 0 = s ! 0" "t ! Suc 0 = s ! Suc 0" "t ! 2 = s ! 2"
    by (simp_all add: take_eq_nth)
  have "DecodeRuneInString t = (rune3 (t ! 0) (t ! 1) (t ! 2), 3)"
    using three ne len by (intro Decode_three) (simp_all add: n hd_nth0)
  then show ?thesis by (simp add: n r w)
next
  case four
  with d have w: "w = 4" and r: "r = rune4 (s ! 0) (s ! 1) (s ! 2) (s ! 3)" by simp_all
  from tk w four(3) have len: "4 \<le> length t" by (simp add: take_eq_len)
  from tk w have n: "t ! 0 = s ! 0" "t ! Suc 0 = s ! Suc 0" "t ! 2 = s ! 2" "t ! 3 = s ! 3"
    by (simp_all add: take_eq_nth)
  have "DecodeRuneInString t = (rune4 (t ! 0) (t ! 1) (t ! 2) (t ! 3), 4)"
    using four ne len by (intro Decode_four) (simp_all add: n hd_nth0)
  then show ?thesis by (simp add: n r w)
qed

lemma take2: "2 \<le> length s \<Longrightarrow> take 2 s = [s ! 0, s ! Suc 0]"
  by (cases s; cases "tl s") (auto simp: numeral_2_eq_2)

lemma take3: "3 \<le> length s \<Longrightarrow> take 3 s = [s ! 0, s ! Suc 0, s ! 2]"
  by (cases s; cases "tl s"; cases "tl (tl s)") (auto simp: numeral_3_eq_3 numeral_2_eq_2)

lemma take4: "4 \<le> length s \<Longrightarrow> take 4 s = [s ! 0, s ! Suc 0, s ! 2, s ! 3]"
  by (cases s; cases "tl s"; cases "tl (tl s)"; cases "tl (tl (tl s))")
     (auto simp: eval_nat_numeral)

lemma Decode_inj:
  assumes ds: "DecodeRuneInString s = (r, w)" and dt: "DecodeRuneInString t = (r, w')"
    and r: "r \<noteq> RuneError" and s: "s \<noteq> []" and t: "t \<noteq> []"
  shows "w = w' \<and> take w s = take w t"
  using s
proof (cases s rule: Decode_cases)
  case ascii
  with ds have rs: "r = byte (s ! 0)" "w = 1" by simp_all
  with ascii dt have "fst (DecodeRuneInString t) < 0x80" by simp
  from Decode_small [OF t this] dt rs have "byte (t ! 0) = byte (s ! 0)" "w' = 1" by simp_all
  then have "t ! 0 = s ! 0" by (simp add: byte_inj)
  with s t rs \<open>w' = 1\<close> show ?thesis by (cases s; cases t) simp_all
next
  case invalid
  with ds r show ?thesis by simp
next
  case s2: two
  with ds have rs: "r = rune2 (s ! 0) (s ! 1)" "w = 2" by simp_all
  note range = rune2_range [OF s2(1,2,4)]
  from t show ?thesis
  proof (cases t rule: Decode_cases)
    case ascii
    with dt rs range s2 s show ?thesis by (simp add: hd_nth0)
  next
    case invalid
    with dt r show ?thesis by simp
  next
    case two
    with dt rs have e: "rune2 (s ! 0) (s ! 1) = rune2 (t ! 0) (t ! 1)" and w': "w' = 2"
      by simp_all
    from e s2 two s t have "(byte (s ! 0) - 192) * 64 + (byte (s ! 1) - 128)
        = (byte (t ! 0) - 192) * 64 + (byte (t ! 1) - 128)"
      by (simp add: rune2_eq hd_nth0)
    from digits2 [OF this] accepted_range [OF s2(4)] accepted_range [OF two(4)]
    have "s ! 0 = t ! 0" "s ! Suc 0 = t ! Suc 0" by (simp_all add: byte_inj)
    then have "take 2 s = take 2 t" using s2(3) two(3) by (simp add: take2)
    with rs w' show ?thesis by simp
  next
    case three
    with dt rs range rune3_range [OF three(1,2,4,5)] s t show ?thesis
      by (simp add: hd_nth0)
  next
    case four
    with dt rs range rune4_range [OF four(1,2,4,5,6)] s t s2 show ?thesis
      by (simp add: hd_nth0)
  qed
next
  case s3: three
  with ds have rs: "r = rune3 (s ! 0) (s ! 1) (s ! 2)" "w = 3" by simp_all
  note range = rune3_range [OF s3(1,2,4,5)]
  from t show ?thesis
  proof (cases t rule: Decode_cases)
    case ascii
    with dt rs range s3 s show ?thesis by (simp add: hd_nth0)
  next
    case invalid
    with dt r show ?thesis by simp
  next
    case two
    with dt rs range rune2_range [OF two(1,2,4)] s t s3 show ?thesis
      by (simp add: hd_nth0)
  next
    case three
    with dt rs have e: "rune3 (s ! 0) (s ! 1) (s ! 2) = rune3 (t ! 0) (t ! 1) (t ! 2)"
      and w': "w' = 3" by simp_all
    from e s3 three s t have "(byte (s ! 0) - 224) * 4096 + (byte (s ! 1) - 128) * 64
          + (byte (s ! 2) - 128)
        = (byte (t ! 0) - 224) * 4096 + (byte (t ! 1) - 128) * 64 + (byte (t ! 2) - 128)"
      by (simp add: rune3_eq hd_nth0)
    from digits3 [OF this] accepted_range [OF s3(4)] accepted_range [OF three(4)]
      continuation_range [OF s3(5)] continuation_range [OF three(5)]
    have "s ! 0 = t ! 0" "s ! Suc 0 = t ! Suc 0" "s ! 2 = t ! 2" by (simp_all add: byte_inj)
    then have "take 3 s = take 3 t" using s3(3) three(3) by (simp add: take3)
    with rs w' show ?thesis by simp
  next
    case four
    with dt rs range rune4_range [OF four(1,2,4,5,6)] s t s3 show ?thesis
      by (simp add: hd_nth0)
  qed
next
  case s4: four
  with ds have rs: "r = rune4 (s ! 0) (s ! 1) (s ! 2) (s ! 3)" "w = 4" by simp_all
  note range = rune4_range [OF s4(1,2,4,5,6)]
  from t show ?thesis
  proof (cases t rule: Decode_cases)
    case ascii
    with dt rs range s4 s show ?thesis by (simp add: hd_nth0)
  next
    case invalid
    with dt r show ?thesis by simp
  next
    case two
    with dt rs range rune2_range [OF two(1,2,4)] s t s4 show ?thesis
      by (simp add: hd_nth0)
  next
    case three
    with dt rs range rune3_range [OF three(1,2,4,5)] s t s4 show ?thesis
      by (simp add: hd_nth0)
  next
    case four
    with dt rs have e: "rune4 (s ! 0) (s ! 1) (s ! 2) (s ! 3)
        = rune4 (t ! 0) (t ! 1) (t ! 2) (t ! 3)" and w': "w' = 4" by simp_all
    from e s4 four s t have "(byte (s ! 0) - 240) * 262144 + (byte (s ! 1) - 128) * 4096
          + (byte (s ! 2) - 128) * 64 + (byte (s ! 3) - 128)
        = (byte (t ! 0) - 240) * 262144 + (byte (t ! 1) - 128) * 4096
          + (byte (t ! 2) - 128) * 64 + (byte (t ! 3) - 128)"
      by (simp add: rune4_eq hd_nth0)
    from digits4 [OF this] accepted_range [OF s4(4)] accepted_range [OF four(4)]
      continuation_range [OF s4(5)] continuation_range [OF four(5)]
      continuation_range [OF s4(6)] continuation_range [OF four(6)]
    have "s ! 0 = t ! 0" "s ! Suc 0 = t ! Suc 0" "s ! 2 = t ! 2" "s ! 3 = t ! 3"
      by (simp_all add: byte_inj)
    then have "take 4 s = take 4 t" using s4(3) four(3) by (simp add: take4)
    with rs w' show ?thesis by simp
  qed
qed

section \<open>Compilation, on the code points of a pattern\<close>

text \<open>
  \<open>QuoteMeta\<close> and the two replacements turn a pattern into the concatenation of what
  \<open>render\<close> gives for each of its bytes. Rendering changes ASCII bytes only, so the
  rendered text is valid UTF-8 exactly when the pattern is, and the parser reads it
  back as the code points of the pattern, one item each.
\<close>

lemma special_simps [simp]:
  "special backslash" "special CHR ''*''" "special CHR ''?''" "special CHR ''.''"
  by (simp_all add: special_def)

lemma backslash_neq [simp]:
  "backslash \<noteq> CHR ''*''" "backslash \<noteq> CHR ''?''" "backslash \<noteq> CHR ''.''"
  "CHR ''*'' \<noteq> backslash" "CHR ''?'' \<noteq> backslash" "CHR ''.'' \<noteq> backslash"
  by (simp_all add: backslash_def)

lemma Replace_skip:
  "s = [] \<or> hd s \<noteq> c \<or> x \<noteq> backslash \<Longrightarrow>
   ReplaceAllString c rep (x # s) = x # ReplaceAllString c rep s"
  by (cases s) auto

lemma Replace_hit:
  "ReplaceAllString c rep (backslash # c # s) = rep @ ReplaceAllString c rep s"
  by simp

lemma QuoteMeta_Cons:
  "QuoteMeta (c # p) = (if special c then backslash # c # QuoteMeta p else c # QuoteMeta p)"
  by (simp add: QuoteMeta_def)

lemma QuoteMeta_hd: "special c \<Longrightarrow> c \<noteq> backslash \<Longrightarrow> QuoteMeta p = [] \<or> hd (QuoteMeta p) \<noteq> c"
  by (cases p) (auto simp: QuoteMeta_Cons QuoteMeta_def)

lemma replace_star:
  "ReplaceAllString CHR ''*'' ''.*'' (QuoteMeta p) = concat (map render_star p)"
proof (induction p)
  case Nil
  show ?case by (simp add: QuoteMeta_def)
next
  case (Cons c p)
  have hd: "QuoteMeta p = [] \<or> hd (QuoteMeta p) \<noteq> CHR ''*''"
    by (rule QuoteMeta_hd) simp_all
  show ?case
  proof (cases "special c")
    case False
    then have "c \<noteq> backslash" by auto
    with False Cons.IH show ?thesis
      by (auto simp: QuoteMeta_Cons Replace_skip render_star_def)
  next
    case True
    show ?thesis
    proof (cases "c = CHR ''*''")
      case True
      with Cons.IH show ?thesis
        by (simp add: QuoteMeta_Cons render_star_def)
    next
      case False
      have "ReplaceAllString CHR ''*'' ''.*'' (backslash # c # QuoteMeta p)
          = backslash # ReplaceAllString CHR ''*'' ''.*'' (c # QuoteMeta p)"
        using False by (intro Replace_skip) simp
      also have "ReplaceAllString CHR ''*'' ''.*'' (c # QuoteMeta p)
          = c # ReplaceAllString CHR ''*'' ''.*'' (QuoteMeta p)"
        using hd by (intro Replace_skip) auto
      finally have "ReplaceAllString CHR ''*'' ''.*'' (backslash # c # QuoteMeta p)
          = backslash # c # ReplaceAllString CHR ''*'' ''.*'' (QuoteMeta p)" .
      moreover have "render_star c = [backslash, c]"
        using \<open>special c\<close> False by (simp add: render_star_def)
      ultimately show ?thesis
        using \<open>special c\<close> Cons.IH by (simp add: QuoteMeta_Cons)
    qed
  qed
qed

lemma render_star_hd: "concat (map render_star p) = [] \<or> hd (concat (map render_star p)) \<noteq> CHR ''?''"
  by (cases p) (auto simp: render_star_def)

lemma replace_question:
  "ReplaceAllString CHR ''?'' ''.'' (concat (map render_star p)) = concat (map render p)"
proof (induction p)
  case Nil
  show ?case by simp
next
  case (Cons c p)
  let ?R = "ReplaceAllString CHR ''?'' ''.''"
  let ?t = "concat (map render_star p)"
  note hd = render_star_hd [of p]
  consider (star) "c = CHR ''*''" | (quest) "c = CHR ''?''"
    | (esc) "special c" "c \<noteq> CHR ''*''" "c \<noteq> CHR ''?''" | (plain) "\<not> special c"
    by blast
  then show ?case
  proof cases
    case star
    have "?R (CHR ''.'' # CHR ''*'' # ?t) = CHR ''.'' # ?R (CHR ''*'' # ?t)"
      by (intro Replace_skip) simp
    also have "?R (CHR ''*'' # ?t) = CHR ''*'' # ?R ?t"
      by (intro Replace_skip) simp
    finally have "?R (CHR ''.'' # CHR ''*'' # ?t) = CHR ''.'' # CHR ''*'' # ?R ?t" .
    moreover have "render_star c = ''.*''" "render c = ''.*''"
      using star by (simp_all add: render_star_def render_def)
    ultimately show ?thesis using Cons.IH by simp
  next
    case quest
    have "render_star c = [backslash, CHR ''?'']" "render c = ''.''"
      using quest by (simp_all add: render_star_def render_def)
    then show ?thesis using Cons.IH by simp
  next
    case esc
    have "?R (backslash # c # ?t) = backslash # ?R (c # ?t)"
      using esc by (intro Replace_skip) simp
    also have "?R (c # ?t) = c # ?R ?t"
      using hd by (intro Replace_skip) auto
    finally have "?R (backslash # c # ?t) = backslash # c # ?R ?t" .
    moreover have "render_star c = [backslash, c]" "render c = [backslash, c]"
      using esc by (simp_all add: render_star_def render_def)
    ultimately show ?thesis using Cons.IH by simp
  next
    case plain
    then have ne: "c \<noteq> backslash" "c \<noteq> CHR ''*''" "c \<noteq> CHR ''?''" by auto
    have "?R (c # ?t) = c # ?R ?t"
      using ne by (intro Replace_skip) auto
    moreover have "render_star c = [c]" "render c = [c]"
      using plain ne by (simp_all add: render_star_def render_def)
    ultimately show ?thesis using Cons.IH by simp
  qed
qed

lemma translate_eq: "translate p = concat (map render p)"
  by (simp add: translate_def replace_star replace_question)

lemma special_ascii: "special c \<Longrightarrow> byte c < 0x80"
proof -
  have "\<forall>c \<in> set (backslash # ''.+*?()|[]{}^$''). byte c < 0x80"
    by (simp add: byte_def backslash_def)
  then show "special c \<Longrightarrow> byte c < 0x80" unfolding special_def by blast
qed

lemma special_rune_byte: "special_rune (byte c) = special c"
proof -
  have "inj byte" by (rule injI) (rule byte_inj)
  then show ?thesis unfolding special_rune_def special_def by (rule inj_image_mem_iff)
qed

lemma special_rune_ascii: "special_rune r \<Longrightarrow> r < 0x80"
proof -
  assume "special_rune r"
  then obtain c where "special c" "r = byte c"
    unfolding special_rune_def special_def by blast
  with special_ascii [of c] show ?thesis by simp
qed

lemma byte_chars [simp]:
  "byte CHR ''*'' = 42" "byte CHR ''?'' = 63" "byte CHR ''.'' = 46" "byte backslash = 92"
  "byte newline = 10"
  by (simp_all add: byte_def backslash_def newline_def)

lemma render_bytes: "map byte (render c) = render_cp (byte c)"
proof -
  have "byte c = 42 \<longleftrightarrow> c = CHR ''*''" "byte c = 63 \<longleftrightarrow> c = CHR ''?''"
    using byte_inj [of c "CHR ''*''"] byte_inj [of c "CHR ''?''"] by auto
  then show ?thesis
    by (simp add: render_def render_cp_def special_rune_byte)
qed

lemma render_nonascii: "0x80 \<le> byte c \<Longrightarrow> render c = [c]"
proof -
  assume h: "0x80 \<le> byte c"
  then have "\<not> special c" using special_ascii [of c] by auto
  moreover from h have "c \<noteq> CHR ''*''" "c \<noteq> CHR ''?''" by auto
  ultimately show ?thesis by (simp add: render_def)
qed

lemma render_ascii:
  "byte c < 0x80 \<Longrightarrow> render c \<noteq> [] \<and> (\<forall>b \<in> set (render c). byte b < 0x80)"
  by (auto simp: render_def)

lemma render_all_nonascii:
  "\<forall>c \<in> set a. 0x80 \<le> byte c \<Longrightarrow> concat (map render a) = a"
  by (induction a) (simp_all add: render_nonascii)

lemma runes_ascii_prefix:
  "\<forall>b \<in> set a. byte b < 0x80 \<Longrightarrow> runes (a @ x) = map (\<lambda>b. (byte b, 1)) a @ runes x"
proof (induction a)
  case Nil
  show ?case by simp
next
  case (Cons b a)
  then have "DecodeRuneInString (b # a @ x) = (byte b, 1)" by (simp add: Decode_ascii)
  with Cons show ?case by (simp add: runes_step [of "b # a @ x"])
qed

lemma rendered_prefix:
  "k \<le> length (concat (map render p)) \<Longrightarrow>
   (\<And>i. i < k \<Longrightarrow> 0x80 \<le> byte (concat (map render p) ! i)) \<Longrightarrow>
   take k (concat (map render p)) = take k p"
proof (induction p arbitrary: k)
  case Nil
  then show ?case by simp
next
  case (Cons c p)
  show ?case
  proof (cases k)
    case 0
    then show ?thesis by simp
  next
    case (Suc k')
    show ?thesis
    proof (cases "byte c < 0x80")
      case True
      from render_ascii [OF True] obtain b bs where r: "render c = b # bs" "byte b < 0x80"
        by (cases "render c") auto
      from Cons.prems(2) [of 0] Suc r show ?thesis by simp
    next
      case False
      then have r: "render c = [c]" by (simp add: render_nonascii)
      have "take k' (concat (map render p)) = take k' p"
      proof (rule Cons.IH)
        show "k' \<le> length (concat (map render p))" using Cons.prems(1) Suc r by simp
        fix i assume "i < k'"
        with Cons.prems(2) [of "Suc i"] Suc r
        show "0x80 \<le> byte (concat (map render p) ! i)" by simp
      qed
      with Suc r show ?thesis by simp
    qed
  qed
qed

lemma Decode_width1:
  assumes "s \<noteq> []" "snd (DecodeRuneInString s) = 1" "0x80 \<le> byte (s ! 0)"
  shows "DecodeRuneInString s = (RuneError, 1)"
  using assms(1) by (cases s rule: Decode_cases) (use assms in auto)

lemma Decode_rendered:
  assumes ne: "p \<noteq> []" and hi: "0x80 \<le> byte (p ! 0)"
  shows "DecodeRuneInString (concat (map render p)) = DecodeRuneInString p"
proof -
  let ?X = "concat (map render p)"
  obtain r w where d: "DecodeRuneInString p = (r, w)" by (cases "DecodeRuneInString p")
  from ne obtain c p' where p: "p = c # p'" by (cases p) auto
  with hi have X: "?X = c # concat (map render p')" by (simp add: render_nonascii)
  then have Xne: "?X \<noteq> []" and X0: "?X ! 0 = p ! 0" using p by simp_all
  show ?thesis
  proof (cases "r = RuneError \<and> w = 1")
    case False
    from Decode_width [OF ne] d have w: "1 \<le> w" "w \<le> length p" by simp_all
    have hi_all: "\<forall>c \<in> set (take w p). 0x80 \<le> byte c"
    proof
      fix b assume "b \<in> set (take w p)"
      then obtain i where i: "i < w" "i < length p" "b = p ! i"
        by (auto simp: in_set_conv_nth)
      show "0x80 \<le> byte b"
      proof (cases i)
        case 0
        with i hi show ?thesis by simp
      next
        case (Suc j)
        with Decode_continuations [OF d, of i] i show ?thesis
          by (simp add: continuation_def)
      qed
    qed
    have "?X = concat (map render (take w p @ drop w p))" by simp
    also have "\<dots> = take w p @ concat (map render (drop w p))"
      using hi_all by (simp only: map_append concat_append render_all_nonascii)
    finally have "take w ?X = take w p" using w by simp
    from Decode_prefix [OF d ne False this] d show ?thesis by simp
  next
    case True
    obtain r' w' where d': "DecodeRuneInString ?X = (r', w')"
      by (cases "DecodeRuneInString ?X")
    have "r' = RuneError \<and> w' = 1"
    proof (rule ccontr)
      assume valid: "\<not> (r' = RuneError \<and> w' = 1)"
      from Decode_width [OF Xne] d' have w': "1 \<le> w'" "w' \<le> length ?X" by simp_all
      have "w' \<noteq> 1"
      proof
        assume "w' = 1"
        with Decode_width1 [OF Xne] d' X0 hi valid show False by simp
      qed
      have "take w' ?X = take w' p"
      proof (rule rendered_prefix [OF w'(2)])
        fix i assume i: "i < w'"
        show "0x80 \<le> byte (?X ! i)"
        proof (cases i)
          case 0
          with X0 hi show ?thesis by simp
        next
          case (Suc j)
          with Decode_continuations [OF d', of i] i show ?thesis
            by (simp add: continuation_def)
        qed
      qed
      then have "take w' p = take w' ?X" by simp
      from Decode_prefix [OF d' Xne valid this] d True valid show False by simp
    qed
    with d d' True show ?thesis by simp
  qed
qed

lemma render_rune_hi: "0x80 \<le> fst x \<Longrightarrow> render_rune x = [x]"
  by (simp add: render_rune_def)

lemma runes_rendered: "runes (concat (map render p)) = concat (map render_rune (runes p))"
proof (induction p rule: runes.induct)
  case (1 p)
  show ?case
  proof (cases "p = []")
    case True
    then show ?thesis by simp
  next
    case ne: False
    then obtain c p' where p: "p = c # p'" by (cases p) auto
    show ?thesis
    proof (cases "byte c < 0x80")
      case True
      then have d: "DecodeRuneInString p = (byte c, 1)" by (simp add: p Decode_ascii)
      with "1.IH" [OF ne] p have
        IH: "runes (concat (map render p')) = concat (map render_rune (runes p'))" by simp
      from render_ascii [OF True] have
        "runes (render c @ concat (map render p'))
          = map (\<lambda>b. (byte b, 1)) (render c) @ runes (concat (map render p'))"
        by (intro runes_ascii_prefix) simp
      moreover have "map (\<lambda>b. (byte b, 1)) (render c) = render_rune (byte c, 1)"
      proof -
        have "map (\<lambda>b. (byte b, 1::nat)) (render c)
                = map (\<lambda>r. (r, 1)) (map byte (render c))"
          by (simp add: o_def)
        with True show ?thesis by (simp only: render_bytes render_rune_def fst_conv if_True)
      qed
      moreover have "runes p = (byte c, 1) # runes p'"
        using d p runes_step [OF ne] by simp
      ultimately show ?thesis using IH p by simp
    next
      case False
      then have hi: "0x80 \<le> byte (p ! 0)" by (simp add: p)
      let ?X = "concat (map render p)"
      obtain r w where d: "DecodeRuneInString p = (r, w)" by (cases "DecodeRuneInString p")
      from Decode_rendered [OF ne hi] d have dX: "DecodeRuneInString ?X = (r, w)" by simp
      from Decode_width [OF ne] d have w: "1 \<le> w" "w \<le> length p" by simp_all
      have hi_all: "\<forall>c \<in> set (take w p). 0x80 \<le> byte c"
      proof
        fix b assume "b \<in> set (take w p)"
        then obtain i where i: "i < w" "i < length p" "b = p ! i"
          by (auto simp: in_set_conv_nth)
        show "0x80 \<le> byte b"
        proof (cases i)
          case 0
          with i hi show ?thesis by simp
        next
          case (Suc j)
          with Decode_continuations [OF d, of i] i show ?thesis
            by (simp add: continuation_def)
        qed
      qed
      have "?X = concat (map render (take w p @ drop w p))" by simp
      also have "\<dots> = take w p @ concat (map render (drop w p))"
        using hi_all by (simp only: map_append concat_append render_all_nonascii)
      finally have split: "?X = take w p @ concat (map render (drop w p))" .
      then have dr: "drop w ?X = concat (map render (drop w p))" using w by simp
      from hi p have Xne: "?X \<noteq> []" by (simp add: render_nonascii)
      from Decode_nonascii [OF ne] hi d have "0x80 \<le> r" by simp
      then have rr: "render_rune (r, w) = [(r, w)]" by (simp add: render_rune_hi)
      from "1.IH" [OF ne] d have
        "runes (concat (map render (drop w p))) = concat (map render_rune (runes (drop w p)))"
        by simp
      with dX dr rr d show ?thesis
        by (simp add: runes_step [OF Xne] runes_step [OF ne])
    qed
  qed
qed

lemma RuneError_not_rendered: "r < 0x80 \<Longrightarrow> RuneError \<notin> set (render_cp r)"
  by (auto simp: render_cp_def RuneError_def)

lemma valid_rendered: "valid_utf8 (concat (map render p)) = valid_utf8 p"
proof -
  have "(RuneError, 1) \<in> set (render_rune x) \<longleftrightarrow> x = (RuneError, 1)" for x :: "int \<times> nat"
  proof (cases "fst x < 0x80")
    case True
    with RuneError_not_rendered [OF True] show ?thesis
      by (auto simp: render_rune_def RuneError_def)
  next
    case False
    then show ?thesis by (auto simp: render_rune_def)
  qed
  then show ?thesis by (simp add: valid_utf8_def runes_rendered)
qed

lemma render_cp_hi: "0x80 \<le> r \<Longrightarrow> render_cp r = [r]"
  using special_rune_ascii [of r] by (auto simp: render_cp_def)

lemma code_points_rendered:
  "code_points (concat (map render p)) = concat (map render_cp (code_points p))"
proof -
  have "map fst (render_rune x) = render_cp (fst x)" for x :: "int \<times> nat"
    by (cases "fst x < 0x80") (simp_all add: render_rune_def render_cp_hi o_def)
  then show ?thesis
    by (simp add: code_points_def runes_rendered map_concat o_def)
qed

lemma render_cp_hd: "concat (map render_cp cps) = [] \<or> hd (concat (map render_cp cps)) \<noteq> 42"
proof (cases cps)
  case Nil
  then show ?thesis by simp
next
  case (Cons r rest)
  have "hd (render_cp r) \<noteq> 42 \<and> render_cp r \<noteq> []"
    by (auto simp: render_cp_def special_rune_def)
  with Cons show ?thesis by (cases "render_cp r") auto
qed

lemma parse_render: "parse_runes (concat (map render_cp cps)) = Some (map wildcard_item cps)"
proof (induction cps)
  case Nil
  show ?case by simp
next
  case (Cons c cps)
  let ?t = "concat (map render_cp cps)"
  note hd = render_cp_hd [of cps]
  consider (star) "c = 42" | (quest) "c = 63"
    | (esc) "special_rune c" "c \<noteq> 42" "c \<noteq> 63" | (plain) "\<not> special_rune c"
    by blast
  then show ?case
  proof cases
    case star
    then have "render_cp c = [46, 42]" "wildcard_item c = AnyStar"
      by (simp_all add: render_cp_def wildcard_item_def)
    then show ?thesis using Cons.IH by simp
  next
    case quest
    then have "render_cp c = [46]" "wildcard_item c = AnyChar"
      by (simp_all add: render_cp_def wildcard_item_def)
    then show ?thesis using Cons.IH hd by (cases ?t) auto
  next
    case esc
    then have "render_cp c = [92, c]" "wildcard_item c = Lit c"
      by (simp_all add: render_cp_def wildcard_item_def)
    then show ?thesis using esc Cons.IH by simp
  next
    case plain
    then have ne: "c \<noteq> 92" "c \<noteq> 42" "c \<noteq> 63" "c \<noteq> 46"
      by (auto simp: special_rune_def special_def backslash_def byte_def)
    then have "render_cp c = [c]" "wildcard_item c = Lit c"
      using plain by (simp_all add: render_cp_def wildcard_item_def)
    then show ?thesis using plain ne Cons.IH by simp
  qed
qed

lemma parse_translate:
  "parse (translate p) = (if valid_utf8 p then Some (map wildcard_item (code_points p)) else None)"
  by (simp add: parse_def translate_eq valid_rendered code_points_rendered parse_render)

lemma compile_eq:
  "compile large p =
     (if valid_utf8 p \<and> \<not> large (map wildcard_item (code_points p))
      then Some (map wildcard_item (code_points p)) else None)"
  by (simp add: compile_def parse_translate)

lemma code_points_Nil [simp]: "code_points [] = []"
  by (simp add: code_points_def)

lemma code_points_step:
  "s \<noteq> [] \<Longrightarrow>
   code_points s = fst (DecodeRuneInString s) # code_points (drop (snd (DecodeRuneInString s)) s)"
  by (simp add: code_points_def runes_step)

lemma runes_pos: "x \<in> set (runes s) \<Longrightarrow> 0 < snd x"
proof (induction s rule: runes.induct)
  case (1 s)
  show ?case
  proof (cases "s = []")
    case True
    with "1.prems" show ?thesis by simp
  next
    case False
    from "1.prems" have "x = DecodeRuneInString s
        \<or> x \<in> set (runes (drop (snd (DecodeRuneInString s)) s))"
      by (simp add: runes_step [OF False])
    with "1.IH" [OF False] Decode_width [OF False] show ?thesis by auto
  qed
qed

lemma valid_no_RuneError: "RuneError \<notin> set (code_points p) \<Longrightarrow> valid_utf8 p"
  by (force simp: valid_utf8_def code_points_def)

lemma code_points_not_star:
  "\<exists>c \<in> set p. c \<noteq> CHR ''*'' \<Longrightarrow> \<exists>r \<in> set (code_points p). r \<noteq> 42"
proof (induction p rule: runes.induct)
  case (1 p)
  from "1.prems" have ne: "p \<noteq> []" by auto
  obtain r w where d: "DecodeRuneInString p = (r, w)" by (cases "DecodeRuneInString p")
  show ?case
  proof (cases "r = 42")
    case False
    with d show ?thesis by (simp add: code_points_step [OF ne])
  next
    case True
    with Decode_small [of p] d ne have b: "byte (p ! 0) = 42" and w: "w = 1" by simp_all
    from ne obtain c p' where p: "p = c # p'" by (cases p) auto
    with b have "c = CHR ''*''" using byte_inj [of c "CHR ''*''"] by simp
    with "1.prems" p have "\<exists>c \<in> set p'. c \<noteq> CHR ''*''" by simp
    with "1.IH" [OF ne] d w p have "\<exists>r \<in> set (code_points p'). r \<noteq> 42" by simp
    moreover have "code_points p = r # code_points p'"
      using code_points_step [OF ne] d w p by simp
    ultimately show ?thesis by simp
  qed
qed

lemma code_points_small:
  "r \<in> set (code_points p) \<Longrightarrow> r < 0x80 \<Longrightarrow> \<exists>c \<in> set p. byte c = r"
proof (induction p rule: runes.induct)
  case (1 p)
  from "1.prems" have ne: "p \<noteq> []" by auto
  obtain r' w where d: "DecodeRuneInString p = (r', w)" by (cases "DecodeRuneInString p")
  from "1.prems"(1) d have "r = r' \<or> r \<in> set (code_points (drop w p))"
    by (simp add: code_points_step [OF ne])
  then show ?case
  proof
    assume "r = r'"
    with Decode_small [of p] d "1.prems"(2) ne have "byte (p ! 0) = r" by simp
    moreover from ne have "p ! 0 \<in> set p" by simp
    ultimately show ?thesis by blast
  next
    assume "r \<in> set (code_points (drop w p))"
    with "1.IH" [OF ne] d "1.prems"(2) obtain c where "c \<in> set (drop w p)" "byte c = r"
      by auto
    then show ?thesis by (blast dest: in_set_dropD)
  qed
qed

lemma wildcard_item_star: "(wildcard_item r \<noteq> AnyStar) = (r \<noteq> 42)"
  by (simp add: wildcard_item_def)

lemma wildcard_item_lits:
  assumes "\<forall>c \<in> set P. c \<noteq> CHR ''*'' \<and> c \<noteq> CHR ''?''"
  shows "map wildcard_item (code_points P) = map Lit (code_points P)"
proof -
  have "r \<noteq> 42 \<and> r \<noteq> 63" if "r \<in> set (code_points P)" for r
  proof (rule ccontr)
    assume "\<not> (r \<noteq> 42 \<and> r \<noteq> 63)"
    then have r: "r = 42 \<or> r = 63" by blast
    then have "r < 0x80" by auto
    from code_points_small [OF that this] obtain c where c: "c \<in> set P" "byte c = r" by blast
    with r have "c = CHR ''*'' \<or> c = CHR ''?''"
      using byte_inj [of c "CHR ''*''"] byte_inj [of c "CHR ''?''"] by auto
    with assms c(1) show False by blast
  qed
  then show ?thesis by (simp add: wildcard_item_def)
qed

lemma compile_Some:
  "compile large p = Some re \<Longrightarrow>
   re = map wildcard_item (code_points p) \<and> valid_utf8 p \<and> \<not> large re"
  by (auto simp: compile_eq split: if_splits)

lemma fold_ext:
  "fold (\<lambda>ext m. m(ext := True)) xs m e = (m e \<or> e \<in> set xs)"
  by (induction xs arbitrary: m) auto

lemma compileLoop_eq:
  "compileLoop large qs ps os es =
     (if \<forall>q \<in> set qs. compile large (QPattern q) \<noteq> None
      then Inr (ps @ map (\<lambda>q. map wildcard_item (code_points (QPattern q))) qs,
                os @ map QPattern qs,
                \<lambda>e. es e \<or> (\<exists>q \<in> set qs. e \<in> set (Extensions q)))
      else Inl RegexpPanic)"
proof (induction qs arbitrary: ps os es)
  case Nil
  show ?case by simp
next
  case (Cons q qs)
  show ?case
  proof (cases "compile large (QPattern q)")
    case None
    then show ?thesis by simp
  next
    case (Some re)
    from compile_Some [OF Some] have re: "re = map wildcard_item (code_points (QPattern q))"
      by simp
    have "(\<lambda>e. fold (\<lambda>ext m. m(ext := True)) (Extensions q) es e
               \<or> (\<exists>q' \<in> set qs. e \<in> set (Extensions q')))
        = (\<lambda>e. es e \<or> (\<exists>q' \<in> set (q # qs). e \<in> set (Extensions q')))"
      by (rule ext) (auto simp: fold_ext)
    with Some re show ?thesis by (simp add: Cons.IH)
  qed
qed

lemma compilePatterns_eq:
  "compilePatterns large qs =
     (if \<forall>q \<in> set qs. compile large (QPattern q) \<noteq> None
      then Inr (map (\<lambda>q. map wildcard_item (code_points (QPattern q))) qs, map QPattern qs,
                \<lambda>e. \<exists>q \<in> set qs. e \<in> set (Extensions q))
      else Inl RegexpPanic)"
  by (simp add: compilePatterns_def compileLoop_eq)

lemma compiled_facts:
  assumes "compilePatterns large queries = Inr (patterns, originalPatterns, extensions)"
  shows "patterns = map (\<lambda>q. map wildcard_item (code_points (QPattern q))) queries"
    and "originalPatterns = map QPattern queries"
    and "extensions = (\<lambda>e. \<exists>q \<in> set queries. e \<in> set (Extensions q))"
    and "\<forall>q \<in> set queries. compile large (QPattern q) = Some (map wildcard_item (code_points (QPattern q)))"
proof -
  from assms have ok: "\<forall>q \<in> set queries. compile large (QPattern q) \<noteq> None"
    by (simp add: compilePatterns_eq split: if_splits)
  with assms show "patterns = map (\<lambda>q. map wildcard_item (code_points (QPattern q))) queries"
    "originalPatterns = map QPattern queries"
    "extensions = (\<lambda>e. \<exists>q \<in> set queries. e \<in> set (Extensions q))"
    by (simp_all add: compilePatterns_eq)
  from ok show "\<forall>q \<in> set queries.
      compile large (QPattern q) = Some (map wildcard_item (code_points (QPattern q)))"
    by (auto dest: compile_Some)
qed

section \<open>The bounds of a match\<close>

text \<open>
  A match lies within the line, and it is not empty when the expression has an item
  other than \<open>.*\<close>: every step through the line takes at least one byte.
\<close>

lemma match_here_pos:
  "match_here re rs = Some n \<Longrightarrow> \<exists>it \<in> set re. it \<noteq> AnyStar \<Longrightarrow> \<forall>x \<in> set rs. 0 < snd x \<Longrightarrow>
   0 < n"
  by (induction re rs arbitrary: n rule: match_here.induct)
     (auto split: if_splits option.splits)

lemma search_pos:
  "search re rs off = Some (ms, me) \<Longrightarrow> \<exists>it \<in> set re. it \<noteq> AnyStar \<Longrightarrow>
   \<forall>x \<in> set rs. 0 < snd x \<Longrightarrow> ms < me"
proof (induction re rs off rule: search.induct)
  case (1 re off)
  then show ?case by (auto split: option.splits dest: match_here_pos)
next
  case (2 re r w rs off)
  show ?case
  proof (cases "match_here re ((r, w) # rs)")
    case None
    with "2.prems" "2.IH" show ?thesis by simp
  next
    case (Some n)
    from match_here_pos [OF Some "2.prems"(2,3)] Some "2.prems"(1) show ?thesis by auto
  qed
qed

lemma doExecute_pos:
  assumes "doExecute re s pos = Some (ms, me)" and "\<exists>it \<in> set re. it \<noteq> AnyStar"
  shows "ms < me"
proof -
  from assms(1) have "search re (runes (drop pos s)) pos = Some (ms, me)"
    by (simp add: doExecute_def split: if_splits)
  moreover have "\<forall>x \<in> set (runes (drop pos s)). 0 < snd x" by (blast dest: runes_pos)
  ultimately show ?thesis using assms(2) search_pos [of re "runes (drop pos s)" pos ms me]
    by blast
qed

lemma allMatches_bounds:
  "(ms, me) \<in> set (allMatches re s n i pos prev) \<Longrightarrow> ms \<le> me \<and> me \<le> length s"
proof (induction re s n i pos prev rule: allMatches.induct)
  case (1 re s n i pos prev)
  from "1.prems" have mem: "(ms, me) \<in> set (allMatches re s n i pos prev)" by simp
  have guard: "i < n \<and> pos \<le> length s"
  proof (rule ccontr)
    assume "\<not> (i < n \<and> pos \<le> length s)"
    with mem show False by (simp add: allMatches.simps [of re s n i pos prev])
  qed
  show ?case
  proof (cases "doExecute re s pos")
    case None
    with mem guard show ?thesis by (simp add: allMatches.simps [of re s n i pos prev])
  next
    case (Some m)
    obtain a b where m: "m = (a, b)" by (cases m)
    have "(ms, me) \<in> set (if accept pos prev a b
            then (a, b) # allMatches re s n (i + 1) (next_pos s pos b) (int b)
            else allMatches re s n i (next_pos s pos b) (int b))"
      using mem guard Some m by (simp add: allMatches.simps [of re s n i pos prev])
    then consider
        (here) "(ms, me) = (a, b)"
      | (acc) "accept pos prev a b"
          "(ms, me) \<in> set (allMatches re s n (i + 1) (next_pos s pos b) (int b))"
      | (rej) "\<not> accept pos prev a b"
          "(ms, me) \<in> set (allMatches re s n i (next_pos s pos b) (int b))"
      by (cases "accept pos prev a b") auto
    then show ?thesis
    proof cases
      case here
      with Some m doExecute_bounds [of re s pos a b] show ?thesis by simp
    next
      case acc
      with "1.IH"(1) [OF guard _ _ acc(1)] Some m show ?thesis by simp
    next
      case rej
      with "1.IH"(2) [OF guard _ _ rej(1)] Some m show ?thesis by simp
    qed
  qed
qed

lemma allMatches_pos:
  "(ms, me) \<in> set (allMatches re s n i pos prev) \<Longrightarrow> \<exists>it \<in> set re. it \<noteq> AnyStar \<Longrightarrow> ms < me"
proof (induction re s n i pos prev rule: allMatches.induct)
  case (1 re s n i pos prev)
  from "1.prems" have mem: "(ms, me) \<in> set (allMatches re s n i pos prev)" by simp
  have guard: "i < n \<and> pos \<le> length s"
  proof (rule ccontr)
    assume "\<not> (i < n \<and> pos \<le> length s)"
    with mem show False by (simp add: allMatches.simps [of re s n i pos prev])
  qed
  show ?case
  proof (cases "doExecute re s pos")
    case None
    with mem guard show ?thesis by (simp add: allMatches.simps [of re s n i pos prev])
  next
    case (Some m)
    obtain a b where m: "m = (a, b)" by (cases m)
    have "(ms, me) \<in> set (if accept pos prev a b
            then (a, b) # allMatches re s n (i + 1) (next_pos s pos b) (int b)
            else allMatches re s n i (next_pos s pos b) (int b))"
      using mem guard Some m by (simp add: allMatches.simps [of re s n i pos prev])
    then consider
        (here) "(ms, me) = (a, b)"
      | (acc) "accept pos prev a b"
          "(ms, me) \<in> set (allMatches re s n (i + 1) (next_pos s pos b) (int b))"
      | (rej) "\<not> accept pos prev a b"
          "(ms, me) \<in> set (allMatches re s n i (next_pos s pos b) (int b))"
      by (cases "accept pos prev a b") auto
    then show ?thesis
    proof cases
      case here
      with Some m doExecute_pos [of re s pos a b] "1.prems"(2) show ?thesis by simp
    next
      case acc
      with "1.IH"(1) [OF guard _ _ acc(1)] Some m "1.prems"(2) show ?thesis by simp
    next
      case rej
      with "1.IH"(2) [OF guard _ _ rej(1)] Some m "1.prems"(2) show ?thesis by simp
    qed
  qed
qed

lemma findMatchPositions_eq:
  "findMatchPositions line re orig =
     map (\<lambda>(ms, me). \<lparr>Pattern = orig, StartIndex = int ms, EndIndex = int me\<rparr>)
       (allMatches re line (length line + 1) 0 0 (- 1))"
  by (simp add: findMatchPositions_def FindAllStringSubmatchIndex_def filter_map o_def
      case_prod_unfold)

lemma findMatchPositions_mem:
  assumes "m \<in> set (findMatchPositions line re orig)"
  shows "Pattern m = orig \<and> 0 \<le> StartIndex m \<and> StartIndex m \<le> EndIndex m
    \<and> EndIndex m \<le> int (length line)
    \<and> ((\<exists>it \<in> set re. it \<noteq> AnyStar) \<longrightarrow> StartIndex m < EndIndex m)"
proof -
  from assms obtain ms me where
    mem: "(ms, me) \<in> set (allMatches re line (length line + 1) 0 0 (- 1))"
    and m: "m = \<lparr>Pattern = orig, StartIndex = int ms, EndIndex = int me\<rparr>"
    by (auto simp: findMatchPositions_eq)
  from allMatches_bounds [OF mem] allMatches_pos [OF mem] m show ?thesis by auto
qed

section \<open>Literal patterns\<close>

text \<open>
  For a pattern of literals that is valid UTF-8 without U+FFFD, the expression matches
  at the start of a text exactly when the bytes of the pattern are there. The search
  goes code point by code point and the scan of \<open>occurrences\<close> byte by byte; they find
  the same spans, since no occurrence of the pattern starts inside an encoding. The
  empty expression matches at the start of every code point and at the end.
\<close>

lemma take_split:
  assumes "w \<le> length P"
  shows "(take (length P) s = P)
    = (take w s = take w P \<and> take (length P - w) (drop w s) = drop w P)"
proof
  assume eq: "take (length P) s = P"
  have "take w s = take w (take (length P) s)" using assms by (simp add: min_def)
  moreover have "take (length P - w) (drop w s) = drop w (take (length P) s)"
    by (simp add: drop_take)
  ultimately show "take w s = take w P \<and> take (length P - w) (drop w s) = drop w P"
    by (simp add: eq)
next
  assume h: "take w s = take w P \<and> take (length P - w) (drop w s) = drop w P"
  have "take (length P) s = take (w + (length P - w)) s" using assms by simp
  also have "\<dots> = take w s @ take (length P - w) (drop w s)" by (rule take_add)
  also have "\<dots> = P" using h by simp
  finally show "take (length P) s = P" .
qed

lemma match_here_lits:
  "RuneError \<notin> set (code_points P) \<Longrightarrow>
   match_here (map Lit (code_points P)) (runes s)
     = (if take (length P) s = P then Some (length P) else None)"
proof (induction P arbitrary: s rule: runes.induct)
  case (1 P)
  show ?case
  proof (cases "P = []")
    case True
    then show ?thesis by simp
  next
    case ne: False
    obtain r w where d: "DecodeRuneInString P = (r, w)" by (cases "DecodeRuneInString P")
    from code_points_step [OF ne] d have cp: "code_points P = r # code_points (drop w P)"
      by simp
    with "1.prems" have r: "r \<noteq> RuneError" and rest: "RuneError \<notin> set (code_points (drop w P))"
      by auto
    from Decode_width [OF ne] d have w: "1 \<le> w" "w \<le> length P" by simp_all
    have IH: "match_here (map Lit (code_points (drop w P))) (runes s')
        = (if take (length P - w) s' = drop w P then Some (length P - w) else None)" for s'
      using "1.IH" [OF ne, of s'] d rest by simp
    show ?thesis
    proof (cases "s = []")
      case True
      with ne cp show ?thesis by auto
    next
      case sne: False
      obtain r' w' where d': "DecodeRuneInString s = (r', w')"
        by (cases "DecodeRuneInString s")
      from runes_step [OF sne] d' have rs: "runes s = (r', w') # runes (drop w' s)" by simp
      show ?thesis
      proof (cases "r' = r")
        case True
        with d' have "DecodeRuneInString s = (r, w')" by simp
        from Decode_inj [OF this d r sne ne] have ww: "w' = w" and tk: "take w s = take w P"
          by auto
        from True ww have "match_here (map Lit (code_points P)) (runes s)
            = map_option ((+) w) (match_here (map Lit (code_points (drop w P))) (runes (drop w s)))"
          by (simp add: cp rs)
        also have "\<dots> = (if take (length P) s = P then Some (length P) else None)"
          using w tk by (simp add: IH take_split [OF w(2), of s])
        finally show ?thesis .
      next
        case False
        have "take (length P) s \<noteq> P"
        proof
          assume "take (length P) s = P"
          with take_split [OF w(2), of s] have "take w s = take w P" by simp
          from Decode_prefix [OF d ne _ this] r d' False show False by simp
        qed
        with False show ?thesis by (simp add: cp rs)
      qed
    qed
  qed
qed

lemma occurrences_beyond: "length L < pos + length P \<Longrightarrow> occurrences P L pos = []"
  by (simp add: occurrences.simps [of P L pos])

lemma occurrences_miss:
  "take (length P) (drop pos L) \<noteq> P \<Longrightarrow> occurrences P L pos = occurrences P L (pos + 1)"
proof (cases "pos + length P \<le> length L")
  case True
  assume "take (length P) (drop pos L) \<noteq> P"
  with True show ?thesis by (simp add: occurrences.simps [of P L pos])
next
  case False
  then show ?thesis by (simp add: occurrences_beyond)
qed

lemma occurrences_hit:
  "take (length P) (drop pos L) = P \<Longrightarrow> pos \<le> length L \<Longrightarrow>
   occurrences P L pos = (pos, pos + length P) # occurrences P L (pos + max 1 (length P))"
proof -
  assume hit: "take (length P) (drop pos L) = P" and le: "pos \<le> length L"
  have "length P = length (take (length P) (drop pos L))" using hit by simp
  then have "length P \<le> length L - pos" by simp
  with le have "pos + length P \<le> length L" by simp
  with hit show ?thesis by (simp add: occurrences.simps [of P L pos])
qed

lemma occurrences_skip:
  "(\<And>k. k < w \<Longrightarrow> take (length P) (drop (pos + k) L) \<noteq> P) \<Longrightarrow>
   occurrences P L pos = occurrences P L (pos + w)"
proof (induction w)
  case 0
  show ?case by simp
next
  case (Suc w)
  have "occurrences P L pos = occurrences P L (pos + w)" by (rule Suc.IH) (simp add: Suc.prems)
  also have "\<dots> = occurrences P L (pos + w + 1)"
    by (rule occurrences_miss) (simp add: Suc.prems)
  finally show ?case by simp
qed

lemma no_occurrence_inside:
  assumes d: "DecodeRuneInString (drop pos L) = (r, w)" and pos: "pos < length L"
    and P: "fst (DecodeRuneInString P) \<noteq> RuneError" and k: "0 < k" "k < w"
  shows "take (length P) (drop (pos + k) L) \<noteq> P"
proof
  assume eq: "take (length P) (drop (pos + k) L) = P"
  from P have ne: "P \<noteq> []" by auto
  from pos have "drop pos L \<noteq> []" by simp
  from Decode_width [OF this] d have "w \<le> length L - pos" by simp
  with k pos have in_range: "pos + k < length L" by simp
  from Decode_continuations [OF d k] have "continuation (drop pos L ! k)" .
  with in_range have c: "continuation (L ! (pos + k))" by simp
  from ne have "P ! 0 = take (length P) (drop (pos + k) L) ! 0" by (simp only: eq)
  also have "\<dots> = L ! (pos + k)" using ne in_range by simp
  finally have "P ! 0 = L ! (pos + k)" .
  with c Decode_lead [OF ne P] show False by simp
qed

lemma search_step:
  assumes "pos < length L" and "DecodeRuneInString (drop pos L) = (r, w)"
  shows "runes (drop pos L) = (r, w) # runes (drop (pos + w) L)"
    and "1 \<le> w" and "pos + w \<le> length L"
proof -
  from assms(1) have ne: "drop pos L \<noteq> []" by simp
  from runes_step [OF ne] assms(2) show "runes (drop pos L) = (r, w) # runes (drop (pos + w) L)"
    by (simp add: add.commute)
  from Decode_width [OF ne] assms(2) have "1 \<le> w" "w \<le> length L - pos" by simp_all
  with assms(1) show "1 \<le> w" "pos + w \<le> length L" by linarith+
qed

lemma lead_of_pattern:
  "P \<noteq> [] \<Longrightarrow> RuneError \<notin> set (code_points P) \<Longrightarrow> fst (DecodeRuneInString P) \<noteq> RuneError"
  by (auto simp: code_points_step)

lemma miss_skips_code_point:
  assumes P: "P \<noteq> []" "RuneError \<notin> set (code_points P)"
    and pos: "pos < length L" and d: "DecodeRuneInString (drop pos L) = (r, w)"
    and miss: "take (length P) (drop pos L) \<noteq> P"
  shows "occurrences P L pos = occurrences P L (pos + w)"
proof (rule occurrences_skip)
  fix k assume k: "k < w"
  show "take (length P) (drop (pos + k) L) \<noteq> P"
  proof (cases k)
    case 0
    with miss show ?thesis by simp
  next
    case (Suc j)
    with k no_occurrence_inside [OF d pos lead_of_pattern [OF P], of k] show ?thesis by simp
  qed
qed

lemma search_hit: "match_here re rs = Some n \<Longrightarrow> search re rs off = Some (off, off + n)"
  by (cases rs) auto

lemma search_lits_None:
  assumes P: "P \<noteq> []" "RuneError \<notin> set (code_points P)"
  shows "search (map Lit (code_points P)) (runes (drop pos L)) pos = None \<Longrightarrow>
    pos \<le> length L \<Longrightarrow> occurrences P L pos = []"
proof (induction "length L - pos" arbitrary: pos rule: less_induct)
  case less
  let ?re = "map Lit (code_points P)"
  show ?case
  proof (cases "pos < length L")
    case False
    with P(1) have "length L < pos + length P" by (cases P) simp_all
    then show ?thesis by (rule occurrences_beyond)
  next
    case True
    obtain r w where d: "DecodeRuneInString (drop pos L) = (r, w)"
      by (cases "DecodeRuneInString (drop pos L)")
    note st = search_step [OF True d]
    from less.prems(1) have m: "match_here ?re (runes (drop pos L)) = None"
      and rest: "search ?re (runes (drop (pos + w) L)) (pos + w) = None"
      by (auto simp: st(1) split: option.splits)
    from m have miss: "take (length P) (drop pos L) \<noteq> P"
      by (simp add: match_here_lits [OF P(2)] split: if_splits)
    have "occurrences P L (pos + w) = []"
      using st(2,3) True by (intro less.hyps [OF _ rest]) simp_all
    with miss_skips_code_point [OF P True d miss] show ?thesis by simp
  qed
qed

lemma search_lits_Some:
  assumes P: "P \<noteq> []" "RuneError \<notin> set (code_points P)"
  shows "search (map Lit (code_points P)) (runes (drop pos L)) pos = Some (ms, me) \<Longrightarrow>
    pos \<le> length L \<Longrightarrow>
    me = ms + length P \<and> pos \<le> ms \<and> ms \<le> length L
    \<and> take (length P) (drop ms L) = P \<and> occurrences P L pos = occurrences P L ms"
proof (induction "length L - pos" arbitrary: pos rule: less_induct)
  case less
  let ?re = "map Lit (code_points P)"
  show ?case
  proof (cases "pos < length L")
    case False
    with less.prems(2) have "drop pos L = []" by simp
    with less.prems(1) have "match_here ?re (runes []) \<noteq> None"
      by (auto split: option.splits)
    moreover have "match_here ?re (runes []) = None"
      using P(1) by (simp only: match_here_lits [OF P(2)]) simp
    ultimately show ?thesis by simp
  next
    case True
    obtain r w where d: "DecodeRuneInString (drop pos L) = (r, w)"
      by (cases "DecodeRuneInString (drop pos L)")
    note st = search_step [OF True d]
    show ?thesis
    proof (cases "take (length P) (drop pos L) = P")
      case hit: True
      then have "match_here ?re (runes (drop pos L)) = Some (length P)"
        by (simp add: match_here_lits [OF P(2)])
      from search_hit [OF this, of pos] less.prems(1) have "ms = pos" "me = pos + length P"
        by simp_all
      with hit less.prems(2) show ?thesis by simp
    next
      case miss: False
      then have "match_here ?re (runes (drop pos L)) = None"
        by (simp add: match_here_lits [OF P(2)])
      with less.prems(1) have rest: "search ?re (runes (drop (pos + w) L)) (pos + w) = Some (ms, me)"
        by (simp add: st(1))
      have "me = ms + length P \<and> pos + w \<le> ms \<and> ms \<le> length L
        \<and> take (length P) (drop ms L) = P \<and> occurrences P L (pos + w) = occurrences P L ms"
        using st(2,3) True by (intro less.hyps [OF _ rest]) simp_all
      with miss_skips_code_point [OF P True d miss] show ?thesis by simp
    qed
  qed
qed

lemma allMatches_lits:
  assumes P: "P \<noteq> []" "RuneError \<notin> set (code_points P)"
  shows "i \<le> pos \<Longrightarrow> n = length L + 1 \<Longrightarrow>
    allMatches (map Lit (code_points P)) L n i pos prev = occurrences P L pos"
proof (induction "map Lit (code_points P)" L n i pos prev rule: allMatches.induct)
  case (1 s n i pos prev)
  let ?re = "map Lit (code_points P)"
  from P(1) have len: "0 < length P" "max 1 (length P) = length P" by (cases P; simp)+
  show ?case
  proof (cases "pos \<le> length s")
    case False
    with len show ?thesis
      by (simp add: allMatches.simps [of ?re s n i pos prev] occurrences_beyond)
  next
    case True
    with "1.prems" have guard: "i < n \<and> pos \<le> length s" by simp
    show ?thesis
    proof (cases "doExecute ?re s pos")
      case None
      with True have "occurrences P s pos = []"
        by (simp add: doExecute_def search_lits_None [OF P])
      with None guard show ?thesis
        by (simp add: allMatches.simps [of ?re s n i pos prev])
    next
      case (Some m)
      obtain ms me where m: "m = (ms, me)" by (cases m)
      from Some m True have srch: "search ?re (runes (drop pos s)) pos = Some (ms, me)"
        by (simp add: doExecute_def)
      note facts = search_lits_Some [OF P srch True]
      from facts len have "me \<noteq> pos" by arith
      then have acc: "accept pos prev ms me" by (simp add: accept_def)
      have np: "next_pos s pos me = ms + max 1 (length P)"
        using \<open>me \<noteq> pos\<close> facts len(2) by (simp add: next_pos_def)
      have "allMatches ?re s n (i + 1) (next_pos s pos me) (int me)
          = occurrences P s (next_pos s pos me)"
      proof (rule "1.hyps"(1) [OF guard Some m [symmetric] acc])
        have gt: "pos < next_pos s pos me" using Some m by (simp add: next_pos_gt)
        show "i + 1 \<le> next_pos s pos me" using gt "1.prems"(1) by simp
        show "n = length s + 1" by (rule "1.prems"(2))
      qed
      moreover have "occurrences P s pos = (ms, me) # occurrences P s (ms + max 1 (length P))"
        using facts occurrences_hit [of P ms s] by simp
      ultimately show ?thesis
        using guard Some m acc np
        by (simp add: allMatches.simps [of ?re s n i pos prev])
    qed
  qed
qed

lemma findMatchPositions_lits:
  "P \<noteq> [] \<Longrightarrow> RuneError \<notin> set (code_points P) \<Longrightarrow>
   findMatchPositions L (map Lit (code_points P)) orig =
     map (\<lambda>(ms, me). \<lparr>Pattern = orig, StartIndex = int ms, EndIndex = int me\<rparr>)
       (occurrences P L 0)"
  by (simp add: findMatchPositions_eq allMatches_lits)

lemma search_empty: "search [] rs off = Some (off, off)"
  by (cases rs) auto

lemma allMatches_empty:
  "i \<le> pos \<Longrightarrow> n = length L + 1 \<Longrightarrow> prev < int pos \<Longrightarrow> pos \<le> length L \<Longrightarrow>
   allMatches [] L n i pos prev = map (\<lambda>b. (b, b)) (boundaries (runes (drop pos L)) pos)"
proof (induction "[] :: regexp" L n i pos prev rule: allMatches.induct)
  case (1 s n i pos prev)
  from "1.prems" have guard: "i < n \<and> pos \<le> length s" by simp
  have ex: "doExecute [] s pos = Some (pos, pos)"
    using "1.prems"(4) by (simp add: doExecute_def search_empty)
  have acc: "accept pos prev pos pos" using "1.prems"(3) by (simp add: accept_def)
  have unfold: "allMatches [] s n i pos prev
      = (pos, pos) # allMatches [] s n (i + 1) (next_pos s pos pos) (int pos)"
    using guard ex acc by (simp add: allMatches.simps [of "[]" s n i pos prev])
  show ?case
  proof (cases "pos < length s")
    case False
    with "1.prems"(4) have e: "drop pos s = []" by simp
    then have "next_pos s pos pos = length s + 1" by (simp add: next_pos_def)
    moreover have "allMatches [] s n (i + 1) (length s + 1) (int pos) = []"
      by (simp add: allMatches.simps [of "[]" s n "Suc i" "Suc (length s)" "int pos"])
    ultimately have "allMatches [] s n (i + 1) (next_pos s pos pos) (int pos) = []"
      by (simp only:)
    with unfold e show ?thesis by simp
  next
    case True
    obtain r w where d: "DecodeRuneInString (drop pos s) = (r, w)"
      by (cases "DecodeRuneInString (drop pos s)")
    note st = search_step [OF True d]
    from d st(2) have np: "next_pos s pos pos = pos + w" by (simp add: next_pos_def)
    have "allMatches [] s n (i + 1) (next_pos s pos pos) (int pos)
        = map (\<lambda>b. (b, b)) (boundaries (runes (drop (next_pos s pos pos) s)) (next_pos s pos pos))"
    proof (rule "1.hyps"(1) [OF guard ex refl acc])
      show "i + 1 \<le> next_pos s pos pos" using np st(2) "1.prems"(1) by simp
      show "n = length s + 1" by (rule "1.prems"(2))
      show "int pos < int (next_pos s pos pos)" using np st(2) by simp
      show "next_pos s pos pos \<le> length s" using np st(3) by simp
    qed
    with unfold np st(1) show ?thesis by simp
  qed
qed

lemma findMatchPositions_empty:
  "findMatchPositions L [] orig =
     map (\<lambda>b. \<lparr>Pattern = orig, StartIndex = int b, EndIndex = int b\<rparr>) (boundaries (runes L) 0)"
  by (simp add: findMatchPositions_eq allMatches_empty o_def)

section \<open>The loops of the scanner and the fan-in\<close>

text \<open>
  With as many original patterns as compiled ones the index in \<open>scanPatterns\<close> stays in
  range, and the two loops of \<open>scanFile\<close> give \<open>expected_results\<close>. What \<open>main\<close> collects
  is an interleaving of what the scan tasks send.
\<close>

lemma scanPatterns_eq:
  "i + length ps = length origs \<Longrightarrow>
   scanPatterns fp repo k line i ps origs =
     Inr (concat (map (\<lambda>(re, original). map (mkResult fp repo k line)
                        (findMatchPositions line re original))
            (zip ps (drop i origs))))"
proof (induction ps arbitrary: i)
  case Nil
  show ?case by simp
next
  case (Cons p ps)
  then have lt: "i < length origs" and rest: "(i + 1) + length ps = length origs" by simp_all
  from lt have d: "drop i origs = origs ! i # drop (i + 1) origs"
    by (simp add: Cons_nth_drop_Suc)
  show ?case using lt Cons.IH [OF rest] by (simp add: d)
qed

lemma scanLoop_eq:
  "length origs = length pats \<Longrightarrow>
   scanLoop fp repo pats origs (int k) lines =
     Inr (concat (map (\<lambda>(j, line).
            concat (map (\<lambda>(re, original). map (mkResult fp repo (int j + 1) line)
                           (findMatchPositions line re original)) (zip pats origs)))
          (enumerate k lines)))"
proof (induction lines arbitrary: k)
  case Nil
  show ?case by simp
next
  case (Cons line lines)
  have step: "int (Suc k) = int k + 1" by simp
  from Cons.prems have "0 + length pats = length origs" by simp
  note sp = scanPatterns_eq [OF this, of fp repo "int k + 1" line]
  note sl = Cons.IH [OF Cons.prems, of "Suc k", unfolded step]
  show ?case by (simp add: sp sl)
qed

lemma scanFile_eq:
  "length origs = length pats \<Longrightarrow>
   scanFile fs fp pats origs repo =
     Inr (case fs fp of None \<Rightarrow> []
          | Some data \<Rightarrow> expected_results fp repo (zip pats origs) (scanLines data))"
  using scanLoop_eq [of origs pats fp repo 0]
  by (simp add: scanFile_def expected_results_def split: option.splits)

lemma expected_results_mem:
  assumes "r \<in> set (expected_results fp repo compiled lines)"
  shows "FilePath r = fp \<and> Repository r = repo
    \<and> 1 \<le> LineNumber r \<and> LineNumber r \<le> int (length lines)
    \<and> lines ! (nat (LineNumber r) - 1) = LineText r
    \<and> (\<exists>i < length compiled. MatchInfo r
          \<in> set (findMatchPositions (LineText r) (fst (compiled ! i)) (snd (compiled ! i))))"
proof -
  from assms obtain j line re original m where
    jl: "(j, line) \<in> set (enumerate 0 lines)" and c: "(re, original) \<in> set compiled"
    and m: "m \<in> set (findMatchPositions line re original)"
    and r: "r = mkResult fp repo (int j + 1) line m"
    by (auto simp: expected_results_def)
  from jl have j: "j < length lines" "lines ! j = line"
    by (auto simp: in_set_enumerate_eq)
  from c obtain i where "i < length compiled" "compiled ! i = (re, original)"
    by (auto simp: in_set_conv_nth)
  with m r j show ?thesis by (auto simp: nat_add_distrib)
qed

lemma spawned_append: "spawned (a @ b) = spawned a @ spawned b"
  by (induction a rule: spawned.induct) simp_all

lemma spawned_Spawns: "spawned (map (\<lambda>(path, repository). Spawn path repository) ts) = ts"
  by (induction ts) auto

lemma spawned_walkBlock:
  "spawned (walkBlock w exts repo) =
     (if snd repo then walkRepository (walk w (repoPath (fst repo))) (fst repo) exts else [])"
  by (simp add: walkBlock_def spawned_Spawns)

lemma spawned_blocks:
  "spawned (concat (map (walkBlock w exts) repos)) =
     concat (map (\<lambda>repo. if snd repo then
        walkRepository (walk w (repoPath (fst repo))) (fst repo) exts else []) repos)"
  by (induction repos) (simp_all add: spawned_append spawned_walkBlock)

lemma spawned_walker:
  "spawned (walker w exts) =
     concat (map (\<lambda>repo. if snd repo then
        walkRepository (walk w (repoPath (fst repo))) (fst repo) exts else []) (repositories w))"
  by (simp add: walker_def spawned_append spawned_blocks)

lemma interleavings_mset: "xs \<in> interleavings ts \<Longrightarrow> mset xs = mset (concat ts)"
  by (induction ts arbitrary: xs) (auto dest: mset_shuffles)

lemma interleavings_set: "xs \<in> interleavings ts \<Longrightarrow> set xs = set (concat ts)"
  by (induction ts arbitrary: xs) (auto dest: set_shuffles)

lemma interleavings_concat: "concat ts \<in> interleavings ts"
proof (induction ts)
  case Nil
  show ?case by simp
next
  case (Cons t ts)
  have "t @ concat ts \<in> shuffles t (concat ts)"
    by (induction t) (auto simp: Cons_in_shuffles_iff)
  with Cons.IH show ?case by auto
qed

lemma interleavings_skip:
  "interleavings (map f (filter Q ts)) = interleavings (map f ts)"
  if "\<And>t. t \<in> set ts \<Longrightarrow> \<not> Q t \<Longrightarrow> f t = []"
  using that by (induction ts) auto

lemma compiled_lengths:
  "compilePatterns large queries = Inr (patterns, originalPatterns, extensions) \<Longrightarrow>
   length originalPatterns = length patterns"
  using compiled_facts(1,2) [of large queries patterns originalPatterns extensions] by simp

lemma scanFile_compiled:
  "compilePatterns large queries = Inr (patterns, originalPatterns, extensions) \<Longrightarrow>
   scanFile fs path patterns originalPatterns repository =
     Inr (case fs path of None \<Rightarrow> []
          | Some data \<Rightarrow> expected_results path repository (zip patterns originalPatterns)
                           (scanLines data))"
  by (rule scanFile_eq) (rule compiled_lengths)

lemma scanFile_results:
  assumes cp: "compilePatterns large queries = Inr (patterns, originalPatterns, extensions)"
    and sf: "scanFile fs path patterns originalPatterns repository = Inr rs"
    and r: "r \<in> set rs"
  shows "FilePath r = path \<and> Repository r = repository
    \<and> (\<exists>i < length queries.
          patterns ! i = map wildcard_item (code_points (QPattern (queries ! i)))
        \<and> originalPatterns ! i = QPattern (queries ! i)
        \<and> MatchInfo r \<in> set (findMatchPositions (LineText r) (patterns ! i)
                                (QPattern (queries ! i))))"
proof -
  note p = compiled_facts(1) [OF cp] and o = compiled_facts(2) [OF cp]
  from sf r scanFile_compiled [OF cp, of fs path repository] obtain data where
    mem: "r \<in> set (expected_results path repository (zip patterns originalPatterns) (scanLines data))"
    by (auto split: option.splits)
  note e = expected_results_mem [OF mem]
  from e obtain i where i: "i < length (zip patterns originalPatterns)"
    and mi: "MatchInfo r \<in> set (findMatchPositions (LineText r)
         (fst (zip patterns originalPatterns ! i)) (snd (zip patterns originalPatterns ! i)))"
    by blast
  from i p o have iq: "i < length queries" by simp
  with mi p o have "patterns ! i = map wildcard_item (code_points (QPattern (queries ! i)))
        \<and> originalPatterns ! i = QPattern (queries ! i)
        \<and> MatchInfo r \<in> set (findMatchPositions (LineText r) (patterns ! i)
                                (QPattern (queries ! i)))"
    by simp
  with iq e show ?thesis by blast
qed

lemma compiled_extensions:
  "compilePatterns large queries = Inr (patterns, originalPatterns, extensions) \<Longrightarrow>
   extensions e = (e \<in> (\<Union>q \<in> set queries. set (Extensions q)))"
  using compiled_facts(3) [of large queries patterns originalPatterns extensions] by simp

lemma spawned_walker_mem:
  assumes "(p, n) \<in> set (spawned (walker w exts))"
  shows "(n, True) \<in> set (repositories w)
    \<and> (\<exists>v \<in> set (walk w (repoPath n)). vpath v = p \<and> schedules exts v)"
proof -
  from assms obtain repo where repo: "repo \<in> set (repositories w)" "snd repo"
    and mem: "(p, n) \<in> set (walkRepository (walk w (repoPath (fst repo))) (fst repo) exts)"
    by (auto simp: spawned_walker split: if_splits)
  from mem have n: "n = fst repo" by (auto simp: walkRepository_def)
  from repo(2) have "repo = (fst repo, True)" by (cases repo) simp
  with repo(1) n have "(n, True) \<in> set (repositories w)" by simp
  with mem n show ?thesis by (auto simp: walkRepository_def)
qed

lemma outputs_compiled:
  assumes "compilePatterns large queries = Inr (patterns, originalPatterns, extensions)"
  shows "list_all (\<lambda>out. \<not> isl out) (outputs w patterns originalPatterns tasks)"
  by (auto simp: list_all_iff outputs_def scanFile_compiled [OF assms])

lemma collects_mem:
  assumes cp: "compilePatterns large queries = Inr (patterns, originalPatterns, extensions)"
    and c: "collects large w queries results" and r: "r \<in> set results"
  shows "\<exists>p n rs. (p, n) \<in> set (spawned (walker w extensions))
    \<and> scanFile (files w) p patterns originalPatterns n = Inr rs \<and> r \<in> set rs"
proof -
  let ?outs = "outputs w patterns originalPatterns (spawned (walker w extensions))"
  from c cp have "results \<in> interleavings (map projr ?outs)" by (simp add: collects_def)
  from interleavings_set [OF this] r obtain out where
    out: "out \<in> set ?outs" "r \<in> set (projr out)" by auto
  then obtain p n where t: "(p, n) \<in> set (spawned (walker w extensions))"
    and o: "out = scanFile (files w) p patterns originalPatterns n"
    by (auto simp: outputs_def)
  from scanFile_compiled [OF cp, of "files w" p n] obtain rs where
    rs: "scanFile (files w) p patterns originalPatterns n = Inr rs" by blast
  with o out(2) have "r \<in> set rs" by simp
  with t rs show ?thesis by blast
qed

lemma Ext_foo: "Ext (dir @ ''foo.TS'') = ''.TS''" "Ext (dir @ ''foo.ts'') = ''.ts''"
  by (simp_all add: Ext_def)

lemma walkRepository_filter:
  "walkRepository (filter (\<lambda>v. vpath v \<noteq> path) visits) n exts =
     filter (\<lambda>t. fst t \<noteq> path) (walkRepository visits n exts)"
  by (simp add: walkRepository_def filter_map o_def conj_commute)

lemma spawned_without_path:
  "spawned (walker (without_path w path) exts) =
     filter (\<lambda>t. fst t \<noteq> path) (spawned (walker w exts))"
  by (simp add: spawned_walker without_path_def walkRepository_filter filter_concat o_def
      if_distrib [of "filter _"] cong: if_cong)

lemma list_all_skip:
  "(\<And>t. t \<in> set ts \<Longrightarrow> \<not> Q t \<Longrightarrow> P (f t)) \<Longrightarrow>
   list_all P (map f (filter Q ts)) = list_all P (map f ts)"
  by (induction ts) auto

lemma split_unique:
  "x \<notin> set X \<Longrightarrow> x \<notin> set Y \<Longrightarrow> X @ x # Y = pre @ x # post \<Longrightarrow> pre = X \<and> post = Y"
proof (induction X arbitrary: pre)
  case Nil
  then show ?case by (cases pre) auto
next
  case (Cons a X)
  show ?case
  proof (cases pre)
    case Nil
    with Cons.prems show ?thesis by auto
  next
    case (Cons p ps)
    with Cons.prems Cons.IH [of ps] show ?thesis by auto
  qed
qed

lemma Announce_in_walkBlock:
  "Announce n \<in> set (walkBlock w exts repo) \<Longrightarrow> fst repo = n"
  by (auto simp: walkBlock_def split: if_splits)

lemma Announce_in_blocks:
  "Announce n \<in> set (concat (map (walkBlock w exts) repos)) \<Longrightarrow> n \<in> fst ` set repos"
  by (auto dest: Announce_in_walkBlock)

section \<open>Runs with room for every file\<close>














section \<open>The example inputs, evaluated\<close>

text \<open>
  The compiled queries, the scan tasks and the results of the example inputs.
\<close>

lemma ascii_runes: "\<forall>c \<in> set s. byte c < 0x80 \<Longrightarrow> runes s = map (\<lambda>b. (byte b, 1)) s"
  using runes_ascii_prefix [of s "[]"] by simp

lemma ascii_code_points: "\<forall>c \<in> set s. byte c < 0x80 \<Longrightarrow> code_points s = map byte s"
  by (simp add: code_points_def ascii_runes o_def)

lemma ascii_valid: "\<forall>c \<in> set s. byte c < 0x80 \<Longrightarrow> valid_utf8 s"
  by (auto simp: valid_utf8_def ascii_runes RuneError_def)

lemma ascii_compile:
  "\<forall>c \<in> set s. byte c < 0x80 \<Longrightarrow> length s \<le> n \<Longrightarrow>
   compile (larger_than n) s = Some (map (\<lambda>c. wildcard_item (byte c)) s)"
  by (simp add: compile_eq ascii_valid ascii_code_points larger_than_def o_def)

lemma todo_compile: "compile (larger_than 1000) ''TODO:'' = Some todo_re"
  by (simp add: ascii_compile byte_def wildcard_item_def todo_re_def)

lemma todo_compiled:
  "compilePatterns (larger_than 1000) todo_queries = Inr ([todo_re], [''TODO:''], \<lambda>e. e = ''.go'')"
proof -
  have "map wildcard_item (code_points ''TODO:'') = todo_re"
    using todo_compile by (simp add: compile_eq split: if_splits)
  then show ?thesis by (simp add: todo_queries_def compilePatterns_eq todo_compile)
qed

lemma Ext_examples:
  "Ext ''repos/r/x.go'' = ''.go''" "Ext ''repos/r'' = []"
  "Ext ''repos/a/x.go'' = ''.go''" "Ext ''repos/a'' = []"
  "Ext ''repos/b/y.go'' = ''.go''" "Ext ''repos/b'' = []" "Ext ''repos/b/gone.go'' = ''.go''"
  by code_simp+

lemma single_tasks:
  "spawned (walker single_file_world (\<lambda>e. e = ''.go'')) = [(''repos/r/x.go'', ''r'')]"
  by (simp add: walker_def walkBlock_def walkRepository_def schedules_def single_file_world_def
      repoPath_def Ext_examples)

lemma single_scan:
  "scanFile (files single_file_world) ''repos/r/x.go'' [todo_re] [''TODO:''] ''r''
   = Inr [\<lparr>FilePath = ''repos/r/x.go'', LineNumber = 2, LineText = ''TODO: fix'',
            Repository = ''r'',
            MatchInfo = \<lparr>Pattern = ''TODO:'', StartIndex = 0, EndIndex = 5\<rparr>\<rparr>]"
  unfolding single_file_world_def by code_simp

lemma single_collects:
  "collects (larger_than 1000) single_file_world todo_queries results =
     (results = [\<lparr>FilePath = ''repos/r/x.go'', LineNumber = 2, LineText = ''TODO: fix'',
            Repository = ''r'',
            MatchInfo = \<lparr>Pattern = ''TODO:'', StartIndex = 0, EndIndex = 5\<rparr>\<rparr>])"
  by (simp add: collects_def todo_compiled single_tasks outputs_def single_scan)

lemma two_tasks:
  "spawned (walker two_repo_world (\<lambda>e. e = ''.go'')) =
     [(''repos/a/x.go'', ''a''), (''repos/b/gone.go'', ''b''), (''repos/b/y.go'', ''b'')]"
  by (simp add: walker_def walkBlock_def walkRepository_def schedules_def two_repo_world_def
      repoPath_def Ext_examples)

lemma two_trace:
  "walker two_repo_world (\<lambda>e. e = ''.go'') =
     [Announce ''a'', Spawn ''repos/a/x.go'' ''a'',
      Announce ''b'', Spawn ''repos/b/gone.go'' ''b'', Spawn ''repos/b/y.go'' ''b'',
      WaitAll, CloseChannel]"
  by (simp add: walker_def walkBlock_def walkRepository_def schedules_def two_repo_world_def
      repoPath_def Ext_examples)

lemma two_scans:
  "scanFile (files two_repo_world) ''repos/a/x.go'' [todo_re] [''TODO:''] ''a''
   = Inr [\<lparr>FilePath = ''repos/a/x.go'', LineNumber = 1, LineText = ''TODO: a'',
            Repository = ''a'',
            MatchInfo = \<lparr>Pattern = ''TODO:'', StartIndex = 0, EndIndex = 5\<rparr>\<rparr>]"
  "scanFile (files two_repo_world) ''repos/b/y.go'' [todo_re] [''TODO:''] ''b''
   = Inr [\<lparr>FilePath = ''repos/b/y.go'', LineNumber = 1, LineText = ''TODO: b'',
            Repository = ''b'',
            MatchInfo = \<lparr>Pattern = ''TODO:'', StartIndex = 0, EndIndex = 5\<rparr>\<rparr>]"
  "scanFile (files two_repo_world) ''repos/b/gone.go'' [todo_re] [''TODO:''] ''b'' = Inr []"
  unfolding two_repo_world_def by code_simp+


lemma two_collects:
  "collects (larger_than 1000) two_repo_world todo_queries results =
     (results \<in> {[\<lparr>FilePath = ''repos/a/x.go'', LineNumber = 1, LineText = ''TODO: a'',
            Repository = ''a'',
            MatchInfo = \<lparr>Pattern = ''TODO:'', StartIndex = 0, EndIndex = 5\<rparr>\<rparr>,
         \<lparr>FilePath = ''repos/b/y.go'', LineNumber = 1, LineText = ''TODO: b'',
            Repository = ''b'',
            MatchInfo = \<lparr>Pattern = ''TODO:'', StartIndex = 0, EndIndex = 5\<rparr>\<rparr>],
        [\<lparr>FilePath = ''repos/b/y.go'', LineNumber = 1, LineText = ''TODO: b'',
            Repository = ''b'',
            MatchInfo = \<lparr>Pattern = ''TODO:'', StartIndex = 0, EndIndex = 5\<rparr>\<rparr>,
         \<lparr>FilePath = ''repos/a/x.go'', LineNumber = 1, LineText = ''TODO: a'',
            Repository = ''a'',
            MatchInfo = \<lparr>Pattern = ''TODO:'', StartIndex = 0, EndIndex = 5\<rparr>\<rparr>]})"
  by (auto simp: collects_def todo_compiled two_tasks outputs_def two_scans)





lemma ts_compiled:
  "compilePatterns (larger_than 1000) ts_queries = Inr ([todo_re], [''TODO:''], \<lambda>e. e = ''.ts'')"
proof -
  have "map wildcard_item (code_points ''TODO:'') = todo_re"
    using todo_compile by (simp add: compile_eq split: if_splits)
  then show ?thesis by (simp add: ts_queries_def compilePatterns_eq todo_compile)
qed

lemma ts_Ext:
  "Ext ''repos/r/foo.TS'' = ''.TS''" "Ext ''repos/r/foo.ts'' = ''.ts''"
  "Ext ''repos/r/sub.ts'' = ''.ts''" "Ext ''repos/r'' = []"
  by code_simp+

lemma ts_tasks:
  "spawned (walker ts_world (\<lambda>e. e = ''.ts'')) = [(''repos/r/foo.ts'', ''r'')]"
  by (simp add: walker_def walkBlock_def walkRepository_def schedules_def ts_world_def
      repoPath_def ts_Ext)

lemma ts_scan:
  "scanFile (files ts_world) ''repos/r/foo.ts'' [todo_re] [''TODO:''] ''r''
   = Inr [\<lparr>FilePath = ''repos/r/foo.ts'', LineNumber = 1, LineText = ''TODO: lower'',
            Repository = ''r'',
            MatchInfo = \<lparr>Pattern = ''TODO:'', StartIndex = 0, EndIndex = 5\<rparr>\<rparr>]"
  unfolding ts_world_def by code_simp

lemma ts_collects:
  "collects (larger_than 1000) ts_world ts_queries results =
     (results = [\<lparr>FilePath = ''repos/r/foo.ts'', LineNumber = 1, LineText = ''TODO: lower'',
            Repository = ''r'',
            MatchInfo = \<lparr>Pattern = ''TODO:'', StartIndex = 0, EndIndex = 5\<rparr>\<rparr>])"
  by (simp add: collects_def ts_compiled ts_tasks outputs_def ts_scan)

section \<open>The claims\<close>

subsection \<open>C1: the bounds of a match\<close>

text \<open>
  C1 says that every match has \<open>0 \<le> startIndex < endIndex \<le> len(lineText)\<close>, also for
  patterns made of wildcards only. The pattern \<open>*\<close> compiles to \<open>.*\<close>, which matches the
  empty text: on an empty line \<open>findMatchPositions\<close> returns the span from 0 to 0, and
  \<open>scanFile\<close> sends it for an empty line of a file.
\<close>

theorem match_span_counterexample:
  "compile (larger_than 1000) ''*'' = Some [AnyStar]
   \<and> findMatchPositions [] [AnyStar] ''*''
       = [\<lparr>Pattern = ''*'', StartIndex = 0, EndIndex = 0\<rparr>]
   \<and> scanFile [''f'' \<mapsto> [newline]] ''f'' [[AnyStar]] [''*''] ''r''
       = Inr [\<lparr>FilePath = ''f'', LineNumber = 1, LineText = [], Repository = ''r'',
                MatchInfo = \<lparr>Pattern = ''*'', StartIndex = 0, EndIndex = 0\<rparr>\<rparr>]"
proof -
  have "compile (larger_than 1000) ''*'' = Some [AnyStar]"
    by (simp add: ascii_compile byte_def wildcard_item_def)
  moreover have "findMatchPositions [] [AnyStar] ''*''
       = [\<lparr>Pattern = ''*'', StartIndex = 0, EndIndex = 0\<rparr>]" by code_simp
  moreover have "scanFile [''f'' \<mapsto> [newline]] ''f'' [[AnyStar]] [''*''] ''r''
       = Inr [\<lparr>FilePath = ''f'', LineNumber = 1, LineText = [], Repository = ''r'',
                MatchInfo = \<lparr>Pattern = ''*'', StartIndex = 0, EndIndex = 0\<rparr>\<rparr>]" by code_simp
  ultimately show ?thesis by (simp only: simp_thms)
qed

text \<open>
  C1, as amended: every match that \<open>findMatchPositions\<close> returns for a compiled pattern,
  and so every result that \<open>scanFile\<close> sends, has
  \<open>0 \<le> startIndex \<le> endIndex \<le> len(lineText)\<close>; and \<open>startIndex < endIndex\<close> when the
  pattern has a character other than \<open>*\<close>.
\<close>

theorem match_span_bounds:
  "(compile large p = Some re \<and> m \<in> set (findMatchPositions line re p) \<longrightarrow>
      0 \<le> StartIndex m \<and> StartIndex m \<le> EndIndex m \<and> EndIndex m \<le> int (length line)
      \<and> ((\<exists>c \<in> set p. c \<noteq> CHR ''*'') \<longrightarrow> StartIndex m < EndIndex m))
   \<and> (compilePatterns large queries = Inr (patterns, originalPatterns, extensions)
      \<and> scanFile fs path patterns originalPatterns repository = Inr rs \<and> r \<in> set rs \<longrightarrow>
      0 \<le> StartIndex (MatchInfo r) \<and> StartIndex (MatchInfo r) \<le> EndIndex (MatchInfo r)
      \<and> EndIndex (MatchInfo r) \<le> int (length (LineText r))
      \<and> ((\<exists>c \<in> set (Pattern (MatchInfo r)). c \<noteq> CHR ''*'')
           \<longrightarrow> StartIndex (MatchInfo r) < EndIndex (MatchInfo r)))"
proof (intro conjI impI)
  assume a: "compile large p = Some re \<and> m \<in> set (findMatchPositions line re p)"
  with compile_Some [of large p re] have re: "re = map wildcard_item (code_points p)" by simp
  from a findMatchPositions_mem [of m line re p]
  have b: "0 \<le> StartIndex m \<and> StartIndex m \<le> EndIndex m \<and> EndIndex m \<le> int (length line)
      \<and> ((\<exists>it \<in> set re. it \<noteq> AnyStar) \<longrightarrow> StartIndex m < EndIndex m)" by simp
  from b show "0 \<le> StartIndex m" "StartIndex m \<le> EndIndex m" "EndIndex m \<le> int (length line)"
    by simp_all
  assume "\<exists>c \<in> set p. c \<noteq> CHR ''*''"
  then have "\<exists>r \<in> set (code_points p). r \<noteq> 42" by (rule code_points_not_star)
  then have "\<exists>it \<in> set re. it \<noteq> AnyStar" by (simp add: re wildcard_item_star)
  with b show "StartIndex m < EndIndex m" by simp
next
  assume a: "compilePatterns large queries = Inr (patterns, originalPatterns, extensions)
      \<and> scanFile fs path patterns originalPatterns repository = Inr rs \<and> r \<in> set rs"
  then have cp: "compilePatterns large queries = Inr (patterns, originalPatterns, extensions)"
    by simp
  from a have "scanFile fs path patterns originalPatterns repository = Inr rs" "r \<in> set rs"
    by simp_all
  from scanFile_results [OF cp this] obtain i where
    i: "i < length queries"
      "patterns ! i = map wildcard_item (code_points (QPattern (queries ! i)))"
    and mi: "MatchInfo r \<in> set (findMatchPositions (LineText r) (patterns ! i)
                                    (QPattern (queries ! i)))"
    by blast
  note b = findMatchPositions_mem [OF mi]
  from b show "0 \<le> StartIndex (MatchInfo r)" "StartIndex (MatchInfo r) \<le> EndIndex (MatchInfo r)"
    "EndIndex (MatchInfo r) \<le> int (length (LineText r))" by simp_all
  assume "\<exists>c \<in> set (Pattern (MatchInfo r)). c \<noteq> CHR ''*''"
  with b have "\<exists>c \<in> set (QPattern (queries ! i)). c \<noteq> CHR ''*''" by simp
  then have "\<exists>r \<in> set (code_points (QPattern (queries ! i))). r \<noteq> 42"
    by (rule code_points_not_star)
  then have "\<exists>it \<in> set (patterns ! i). it \<noteq> AnyStar" by (simp add: i(2) wildcard_item_star)
  with b show "StartIndex (MatchInfo r) < EndIndex (MatchInfo r)" by simp
qed

text \<open>
  The amended C1 at the pattern \<open>a?b\<close> on the line \<open>axb\<close>, and at the result of the
  file of three lines.
\<close>

theorem match_span_bounds_witness:
  "compile (larger_than 1000) ''a?b'' = Some [Lit (byte CHR ''a''), AnyChar, Lit (byte CHR ''b'')]
   \<and> \<lparr>Pattern = ''a?b'', StartIndex = 0, EndIndex = 3\<rparr>
       \<in> set (findMatchPositions ''axb'' [Lit (byte CHR ''a''), AnyChar, Lit (byte CHR ''b'')]
                ''a?b'')
   \<and> (\<exists>c \<in> set ''a?b''. c \<noteq> CHR ''*'')
   \<and> (0::int) < 3 \<and> (3::int) \<le> int (length ''axb'')
   \<and> compilePatterns (larger_than 1000) todo_queries
       = Inr ([todo_re], [''TODO:''], \<lambda>e. e = ''.go'')
   \<and> scanFile [''repos/r/x.go'' \<mapsto> ''line1'' @ newline # ''TODO: fix'' @ newline # ''line3'']
         ''repos/r/x.go'' [todo_re] [''TODO:''] ''r''
       = Inr [\<lparr>FilePath = ''repos/r/x.go'', LineNumber = 2, LineText = ''TODO: fix'',
                Repository = ''r'',
                MatchInfo = \<lparr>Pattern = ''TODO:'', StartIndex = 0, EndIndex = 5\<rparr>\<rparr>]
   \<and> (0::int) < 5 \<and> (5::int) \<le> int (length ''TODO: fix'')"
proof -
  let ?re = "[Lit (byte CHR ''a''), AnyChar, Lit (byte CHR ''b'')]"
  let ?m = "\<lparr>Pattern = ''a?b'', StartIndex = 0, EndIndex = 3\<rparr>"
  let ?fs = "[''repos/r/x.go'' \<mapsto> ''line1'' @ newline # ''TODO: fix'' @ newline # ''line3'']"
  let ?r = "\<lparr>FilePath = ''repos/r/x.go'', LineNumber = 2, LineText = ''TODO: fix'',
             Repository = ''r'',
             MatchInfo = \<lparr>Pattern = ''TODO:'', StartIndex = 0, EndIndex = 5\<rparr>\<rparr>"
  have c: "compile (larger_than 1000) ''a?b'' = Some ?re"
    by (simp add: ascii_compile byte_def wildcard_item_def)
  have f: "findMatchPositions ''axb'' ?re ''a?b'' = [?m]" by code_simp
  note cp = todo_compiled
  have sf: "scanFile ?fs ''repos/r/x.go'' [todo_re] [''TODO:''] ''r'' = Inr [?r]"
    using single_scan by (simp add: single_file_world_def)
  from match_span_bounds [of "larger_than 1000" "''a?b''" ?re ?m "''axb''" todo_queries
      "[todo_re]" "[''TODO:'']" "\<lambda>e. e = ''.go''" ?fs "''repos/r/x.go''" "''r''" "[?r]" ?r]
    c f cp sf
  show ?thesis by simp
qed

subsection \<open>C2: literal patterns\<close>

text \<open>
  C2 says that for every pattern \<open>P\<close> without \<open>*\<close> and \<open>?\<close> and every line \<open>L\<close> the
  matches are exactly the occurrences of \<open>P\<close> in \<open>L\<close>. The library reads the pattern and
  the line as UTF-8. A byte of the line that is no UTF-8 counts as the code point
  U+FFFD: the pattern U+FFFD matches the line of the one byte \<open>0xFF\<close>, in which its three
  bytes do not occur. After an empty match the search goes on past a whole code point:
  the empty pattern matches the two-byte line U+00E9 at 0 and at 2, not at 1, where
  the empty text occurs as well.
\<close>

theorem literal_pattern_counterexample:
  "set replacement_character \<inter> {CHR ''*'', CHR ''?''} = {}
   \<and> compile (larger_than 1000) replacement_character = Some [Lit 0xFFFD]
   \<and> findMatchPositions stray_byte [Lit 0xFFFD] replacement_character
       = [\<lparr>Pattern = replacement_character, StartIndex = 0, EndIndex = 1\<rparr>]
   \<and> occurrences replacement_character stray_byte 0 = []
   \<and> compile (larger_than 1000) [] = Some []
   \<and> findMatchPositions e_acute [] []
       = [\<lparr>Pattern = [], StartIndex = 0, EndIndex = 0\<rparr>,
          \<lparr>Pattern = [], StartIndex = 2, EndIndex = 2\<rparr>]
   \<and> occurrences [] e_acute 0 = [(0, 0), (1, 1), (2, 2)]"
proof -
  have "set replacement_character \<inter> {CHR ''*'', CHR ''?''} = {}"
    by (simp add: replacement_character_def)
  moreover have "compile (larger_than 1000) replacement_character = Some [Lit 0xFFFD]"
    by code_simp
  moreover have "findMatchPositions stray_byte [Lit 0xFFFD] replacement_character
       = [\<lparr>Pattern = replacement_character, StartIndex = 0, EndIndex = 1\<rparr>]"
    by code_simp
  moreover have "occurrences replacement_character stray_byte 0 = []" by code_simp
  moreover have "compile (larger_than 1000) [] = Some []" by code_simp
  moreover have "findMatchPositions e_acute [] []
       = [\<lparr>Pattern = [], StartIndex = 0, EndIndex = 0\<rparr>,
          \<lparr>Pattern = [], StartIndex = 2, EndIndex = 2\<rparr>]"
    by code_simp
  moreover have "occurrences [] e_acute 0 = [(0, 0), (1, 1), (2, 2)]" by code_simp
  ultimately show ?thesis by (simp only: simp_thms)
qed

text \<open>
  C2, as amended: let \<open>P\<close> be a pattern without \<open>*\<close> and \<open>?\<close> that is valid UTF-8 without
  the code point U+FFFD, and that the library accepts for its size. Then \<open>P\<close> compiles
  to its code points as literals, and for every line \<open>L\<close>, of any bytes,
  \<open>findMatchPositions\<close> returns, each labelled with \<open>P\<close>: for \<open>P\<close> not empty exactly the
  occurrences of \<open>P\<close> in \<open>L\<close>, left to right and without overlap, the search going on at
  the end of each match (\<open>occurrences\<close>); for the empty \<open>P\<close> one empty match at the start
  of each code point of \<open>L\<close> and one at its end.
\<close>

theorem literal_pattern_occurrences:
  assumes "\<forall>c \<in> set P. c \<noteq> CHR ''*'' \<and> c \<noteq> CHR ''?''"
    and "RuneError \<notin> set (code_points P)"
    and "\<not> large (map Lit (code_points P))"
  shows "compile large P = Some (map Lit (code_points P))
    \<and> findMatchPositions L (map Lit (code_points P)) P =
        (if P = []
         then map (\<lambda>b. \<lparr>Pattern = P, StartIndex = int b, EndIndex = int b\<rparr>)
                (boundaries (runes L) 0)
         else map (\<lambda>(s, e). \<lparr>Pattern = P, StartIndex = int s, EndIndex = int e\<rparr>)
                (occurrences P L 0))"
proof -
  from assms(1) have lits: "map wildcard_item (code_points P) = map Lit (code_points P)"
    by (rule wildcard_item_lits)
  from assms(2) have "valid_utf8 P" by (rule valid_no_RuneError)
  moreover have "compile large P =
      (if valid_utf8 P \<and> \<not> large (map Lit (code_points P))
       then Some (map Lit (code_points P)) else None)"
    by (simp only: compile_eq lits)
  ultimately have "compile large P = Some (map Lit (code_points P))"
    using assms(3) by simp
  moreover have "findMatchPositions L (map Lit (code_points P)) P =
        map (\<lambda>b. \<lparr>Pattern = P, StartIndex = int b, EndIndex = int b\<rparr>) (boundaries (runes L) 0)"
    if "P = []"
    using that by (simp add: findMatchPositions_empty)
  moreover have "findMatchPositions L (map Lit (code_points P)) P =
        map (\<lambda>(s, e). \<lparr>Pattern = P, StartIndex = int s, EndIndex = int e\<rparr>) (occurrences P L 0)"
    if "P \<noteq> []"
    using that assms(2) by (rule findMatchPositions_lits)
  ultimately show ?thesis by simp
qed

text \<open>
  The amended C2 at the pattern \<open>ab\<close> on the line \<open>ababab\<close>: the spans (0,2), (2,4),
  (4,6), in this order; at the pattern U+00E9 on a line of a stray byte, U+00E9, \<open>x\<close>
  and U+00E9; and at the empty pattern on the line U+00E9.
\<close>

theorem literal_pattern_occurrences_witness:
  "set ''ab'' \<inter> {CHR ''*'', CHR ''?''} = {}
   \<and> RuneError \<notin> set (code_points ''ab'')
   \<and> \<not> larger_than 1000 (map Lit (code_points ''ab''))
   \<and> compile (larger_than 1000) ''ab'' = Some [Lit (byte CHR ''a''), Lit (byte CHR ''b'')]
   \<and> findMatchPositions ''ababab'' [Lit (byte CHR ''a''), Lit (byte CHR ''b'')] ''ab'' =
       [\<lparr>Pattern = ''ab'', StartIndex = 0, EndIndex = 2\<rparr>,
        \<lparr>Pattern = ''ab'', StartIndex = 2, EndIndex = 4\<rparr>,
        \<lparr>Pattern = ''ab'', StartIndex = 4, EndIndex = 6\<rparr>]
   \<and> set e_acute \<inter> {CHR ''*'', CHR ''?''} = {}
   \<and> RuneError \<notin> set (code_points e_acute)
   \<and> compile (larger_than 1000) e_acute = Some [Lit 0xE9]
   \<and> findMatchPositions (stray_byte @ e_acute @ ''x'' @ e_acute) [Lit 0xE9] e_acute =
       [\<lparr>Pattern = e_acute, StartIndex = 1, EndIndex = 3\<rparr>,
        \<lparr>Pattern = e_acute, StartIndex = 4, EndIndex = 6\<rparr>]
   \<and> findMatchPositions e_acute [] [] =
       [\<lparr>Pattern = [], StartIndex = 0, EndIndex = 0\<rparr>,
        \<lparr>Pattern = [], StartIndex = 2, EndIndex = 2\<rparr>]"
proof -
  have h: "\<forall>c \<in> set ''ab''. c \<noteq> CHR ''*'' \<and> c \<noteq> CHR ''?''" by simp
  have cps: "code_points ''ab'' = [byte CHR ''a'', byte CHR ''b'']"
    by (simp add: ascii_code_points byte_def)
  have v: "RuneError \<notin> set (code_points ''ab'')" by (simp add: cps byte_def RuneError_def)
  have l: "\<not> larger_than 1000 (map Lit (code_points ''ab''))" by (simp add: cps larger_than_def)
  have o: "occurrences ''ab'' ''ababab'' 0 = [(0, 2), (2, 4), (4, 6)]" by code_simp
  from literal_pattern_occurrences [where P = "''ab''" and large = "larger_than 1000"
      and L = "''ababab''", OF h v l] o
  have ab: "compile (larger_than 1000) ''ab'' = Some [Lit (byte CHR ''a''), Lit (byte CHR ''b'')]
   \<and> findMatchPositions ''ababab'' [Lit (byte CHR ''a''), Lit (byte CHR ''b'')] ''ab'' =
       [\<lparr>Pattern = ''ab'', StartIndex = 0, EndIndex = 2\<rparr>,
        \<lparr>Pattern = ''ab'', StartIndex = 2, EndIndex = 4\<rparr>,
        \<lparr>Pattern = ''ab'', StartIndex = 4, EndIndex = 6\<rparr>]"
    by (simp add: cps)
  have h': "\<forall>c \<in> set e_acute. c \<noteq> CHR ''*'' \<and> c \<noteq> CHR ''?''" by (simp add: e_acute_def)
  have cps': "code_points e_acute = [0xE9]" by code_simp
  have v': "RuneError \<notin> set (code_points e_acute)" by (simp add: cps' RuneError_def)
  have l': "\<not> larger_than 1000 (map Lit (code_points e_acute))"
    by (simp add: cps' larger_than_def)
  have ne: "e_acute \<noteq> []" by (simp add: e_acute_def)
  have o': "occurrences e_acute (stray_byte @ e_acute @ ''x'' @ e_acute) 0 = [(1, 3), (4, 6)]"
    by code_simp
  from literal_pattern_occurrences [where P = e_acute and large = "larger_than 1000"
      and L = "stray_byte @ e_acute @ ''x'' @ e_acute", OF h' v' l'] o' ne
  have e: "compile (larger_than 1000) e_acute = Some [Lit 0xE9]
   \<and> findMatchPositions (stray_byte @ e_acute @ ''x'' @ e_acute) [Lit 0xE9] e_acute =
       [\<lparr>Pattern = e_acute, StartIndex = 1, EndIndex = 3\<rparr>,
        \<lparr>Pattern = e_acute, StartIndex = 4, EndIndex = 6\<rparr>]"
    by (simp add: cps')
  have b: "boundaries (runes e_acute) 0 = [0, 2]" by code_simp
  have "\<not> larger_than 1000 (map Lit (code_points []))" by (simp add: larger_than_def)
  from literal_pattern_occurrences [where P = "[]" and large = "larger_than 1000"
      and L = e_acute, OF _ _ this] b
  have n: "findMatchPositions e_acute [] [] =
       [\<lparr>Pattern = [], StartIndex = 0, EndIndex = 0\<rparr>,
        \<lparr>Pattern = [], StartIndex = 2, EndIndex = 2\<rparr>]"
    by simp
  have "set ''ab'' \<inter> {CHR ''*'', CHR ''?''} = {}" by simp
  moreover have "set e_acute \<inter> {CHR ''*'', CHR ''?''} = {}" by (simp add: e_acute_def)
  ultimately show ?thesis using v l ab v' e n by (simp only: simp_thms)
qed

subsection \<open>C3: the translation of the wildcards\<close>

text \<open>
  C3: the text handed to the library is the pattern byte by byte, \<open>*\<close> as \<open>.*\<close>, \<open>?\<close> as
  \<open>.\<close>, a special character escaped and every other byte as it is; the library accepts
  it exactly when the pattern is valid UTF-8 and the expression is not too large, and
  the compiled form is then the pattern code point by code point, \<open>*\<close> as a run of any
  characters, \<open>?\<close> as one character, every other code point as itself, whatever it means
  in a regular expression. The pattern \<open>a*b\<close> on \<open>aXYZb\<close> gives the one span from 0 to 5;
  \<open>a?b\<close> matches \<open>axb\<close> and gives nothing on \<open>axxb\<close>.
\<close>

theorem wildcard_translation:
  "translate p = concat (map render p)
   \<and> compile large p =
       (if valid_utf8 p \<and> \<not> large (map wildcard_item (code_points p))
        then Some (map wildcard_item (code_points p)) else None)
   \<and> compile (larger_than 1000) ''a*b''
       = Some [Lit (byte CHR ''a''), AnyStar, Lit (byte CHR ''b'')]
   \<and> findMatchPositions ''aXYZb'' [Lit (byte CHR ''a''), AnyStar, Lit (byte CHR ''b'')] ''a*b''
       = [\<lparr>Pattern = ''a*b'', StartIndex = 0, EndIndex = 5\<rparr>]
   \<and> compile (larger_than 1000) ''a?b''
       = Some [Lit (byte CHR ''a''), AnyChar, Lit (byte CHR ''b'')]
   \<and> findMatchPositions ''axb'' [Lit (byte CHR ''a''), AnyChar, Lit (byte CHR ''b'')] ''a?b''
       = [\<lparr>Pattern = ''a?b'', StartIndex = 0, EndIndex = 3\<rparr>]
   \<and> findMatchPositions ''axxb'' [Lit (byte CHR ''a''), AnyChar, Lit (byte CHR ''b'')] ''a?b''
       = []"
proof -
  have "compile (larger_than 1000) ''a*b''
      = Some [Lit (byte CHR ''a''), AnyStar, Lit (byte CHR ''b'')]"
    by (simp add: ascii_compile byte_def wildcard_item_def)
  moreover have "findMatchPositions ''aXYZb'' [Lit (byte CHR ''a''), AnyStar, Lit (byte CHR ''b'')]
      ''a*b'' = [\<lparr>Pattern = ''a*b'', StartIndex = 0, EndIndex = 5\<rparr>]" by code_simp
  moreover have "compile (larger_than 1000) ''a?b''
      = Some [Lit (byte CHR ''a''), AnyChar, Lit (byte CHR ''b'')]"
    by (simp add: ascii_compile byte_def wildcard_item_def)
  moreover have "findMatchPositions ''axb'' [Lit (byte CHR ''a''), AnyChar, Lit (byte CHR ''b'')]
      ''a?b'' = [\<lparr>Pattern = ''a?b'', StartIndex = 0, EndIndex = 3\<rparr>]" by code_simp
  moreover have "findMatchPositions ''axxb'' [Lit (byte CHR ''a''), AnyChar, Lit (byte CHR ''b'')]
      ''a?b'' = []"
    by code_simp
  moreover note translate_eq [of p] compile_eq [of large p]
  ultimately show ?thesis by (simp only: simp_thms)
qed

text \<open>
  C3 at a pattern with a dot, a star, parentheses and a question mark: the text handed
  to the library and its compiled form.
\<close>

theorem wildcard_translation_witness:
  "valid_utf8 ''a.*(b)?''
   \<and> \<not> larger_than 1000 (map wildcard_item (code_points ''a.*(b)?''))
   \<and> compile (larger_than 1000) ''a.*(b)?''
       = Some [Lit (byte CHR ''a''), Lit (byte CHR ''.''), AnyStar, Lit (byte CHR ''(''),
               Lit (byte CHR ''b''), Lit (byte CHR '')''), AnyChar]
   \<and> translate ''a.*(b)?'' = CHR ''a'' # backslash # ''..*'' @ backslash # ''(b'' @ backslash # '').''"
proof -
  have cps: "code_points ''a.*(b)?'' = map byte ''a.*(b)?''"
    by (simp add: ascii_code_points byte_def)
  have v: "valid_utf8 ''a.*(b)?''" by (simp add: ascii_valid byte_def)
  have l: "\<not> larger_than 1000 (map wildcard_item (code_points ''a.*(b)?''))"
    by (simp add: cps larger_than_def)
  have t: "concat (map render ''a.*(b)?'')
      = CHR ''a'' # backslash # ''..*'' @ backslash # ''(b'' @ backslash # '').''"
    by code_simp
  from wildcard_translation [of "''a.*(b)?''" "larger_than 1000"] v l t show ?thesis
    by (simp add: cps wildcard_item_def byte_def)
qed

subsection \<open>C4: the results of a file\<close>

text \<open>
  C4: for the compiled queries and a file that can be opened, \<open>scanFile\<close> sends exactly
  \<open>expected_results\<close>: lines numbered from 1, on each line the patterns in the order of
  the queries, one result for each match with the path, the line number, the whole line
  and the repository, and nothing for a line without match.
\<close>

theorem scanFile_emits:
  assumes "compilePatterns large queries = Inr (patterns, originalPatterns, extensions)"
    and "fs path = Some data"
  shows "scanFile fs path patterns originalPatterns repository =
     Inr (expected_results path repository (zip patterns originalPatterns) (scanLines data))"
  using scanFile_compiled [OF assms(1), of fs path repository] assms(2) by simp

text \<open>
  C4 at the query \<open>TODO:\<close> for \<open>.go\<close> and the file \<open>x.go\<close> of the three lines \<open>line1\<close>,
  \<open>TODO: fix\<close>, \<open>line3\<close>: one result, on line 2, from 0 to 5; it is also all that a run
  collects.
\<close>

theorem scanFile_emits_witness:
  "compilePatterns (larger_than 1000) todo_queries = Inr ([todo_re], [''TODO:''], \<lambda>e. e = ''.go'')
   \<and> files single_file_world ''repos/r/x.go''
       = Some (''line1'' @ newline # ''TODO: fix'' @ newline # ''line3'')
   \<and> scanFile (files single_file_world) ''repos/r/x.go'' [todo_re] [''TODO:''] ''r''
       = Inr [\<lparr>FilePath = ''repos/r/x.go'', LineNumber = 2, LineText = ''TODO: fix'',
                Repository = ''r'',
                MatchInfo = \<lparr>Pattern = ''TODO:'', StartIndex = 0, EndIndex = 5\<rparr>\<rparr>]
   \<and> (\<forall>results. collects (larger_than 1000) single_file_world todo_queries results =
        (results = [\<lparr>FilePath = ''repos/r/x.go'', LineNumber = 2, LineText = ''TODO: fix'',
                Repository = ''r'',
                MatchInfo = \<lparr>Pattern = ''TODO:'', StartIndex = 0, EndIndex = 5\<rparr>\<rparr>]))"
proof -
  have f: "files single_file_world ''repos/r/x.go''
       = Some (''line1'' @ newline # ''TODO: fix'' @ newline # ''line3'')"
    by (simp add: single_file_world_def)
  have e: "expected_results ''repos/r/x.go'' ''r'' (zip [todo_re] [''TODO:''])
       (scanLines (''line1'' @ newline # ''TODO: fix'' @ newline # ''line3''))
     = [\<lparr>FilePath = ''repos/r/x.go'', LineNumber = 2, LineText = ''TODO: fix'',
                Repository = ''r'',
                MatchInfo = \<lparr>Pattern = ''TODO:'', StartIndex = 0, EndIndex = 5\<rparr>\<rparr>]"
    by code_simp
  from scanFile_emits [where fs = "files single_file_world" and path = "''repos/r/x.go''"
      and repository = "''r''", OF todo_compiled f] e f todo_compiled single_collects
  show ?thesis by simp
qed

subsection \<open>C5: the filter on extensions\<close>

text \<open>
  C5: a call of the walk function starts a scan task exactly when the walk reports no
  error for the entry, the entry is not a directory and its extension, compared
  character by character, is in some query's list. So \<open>foo.ts\<close> is scanned exactly when
  \<open>.ts\<close> is listed, \<open>foo.TS\<close> is not scanned when only \<open>.ts\<close> is listed, and every
  collected result comes from a file with a listed extension.
\<close>

theorem extension_filter:
  assumes "compilePatterns large queries = Inr (patterns, originalPatterns, extensions)"
  shows "schedules extensions v =
      (\<not> verr v \<and> \<not> vIsDir v \<and> Ext (vpath v) \<in> (\<Union>q \<in> set queries. set (Extensions q)))
    \<and> schedules extensions \<lparr>vpath = dir @ ''foo.ts'', verr = False, vIsDir = False\<rparr> =
      (''.ts'' \<in> (\<Union>q \<in> set queries. set (Extensions q)))
    \<and> ((\<Union>q \<in> set queries. set (Extensions q)) \<subseteq> {''.ts''} \<longrightarrow>
      \<not> schedules extensions \<lparr>vpath = dir @ ''foo.TS'', verr = e, vIsDir = d\<rparr>)
    \<and> (collects large w queries results \<and> r \<in> set results \<longrightarrow>
      Ext (FilePath r) \<in> (\<Union>q \<in> set queries. set (Extensions q)))"
proof -
  note ext = compiled_extensions [OF assms]
  have s: "schedules extensions v =
      (\<not> verr v \<and> \<not> vIsDir v \<and> Ext (vpath v) \<in> (\<Union>q \<in> set queries. set (Extensions q)))"
    for v by (simp add: schedules_def ext)
  have lower: "schedules extensions \<lparr>vpath = dir @ ''foo.ts'', verr = False, vIsDir = False\<rparr> =
      (''.ts'' \<in> (\<Union>q \<in> set queries. set (Extensions q)))"
    by (simp add: s Ext_foo)
  have upper: "\<not> schedules extensions \<lparr>vpath = dir @ ''foo.TS'', verr = e, vIsDir = d\<rparr>"
    if "(\<Union>q \<in> set queries. set (Extensions q)) \<subseteq> {''.ts''}"
  proof
    assume "schedules extensions \<lparr>vpath = dir @ ''foo.TS'', verr = e, vIsDir = d\<rparr>"
    then have "''.TS'' \<in> (\<Union>q \<in> set queries. set (Extensions q))"
      by (simp add: s Ext_foo)
    with that have "''.TS'' \<in> {''.ts''}" by blast
    then show False by simp
  qed
  have res: "Ext (FilePath r) \<in> (\<Union>q \<in> set queries. set (Extensions q))"
    if "collects large w queries results" "r \<in> set results"
  proof -
    from collects_mem [OF assms that] obtain p n rs where
      t: "(p, n) \<in> set (spawned (walker w extensions))"
      and sf: "scanFile (files w) p patterns originalPatterns n = Inr rs" and r: "r \<in> set rs"
      by blast
    from scanFile_results [OF assms sf r] have "FilePath r = p" by simp
    moreover from spawned_walker_mem [OF t] obtain v where "vpath v = p" "schedules extensions v"
      by blast
    ultimately show ?thesis by (auto simp: s)
  qed
  from s lower upper res show ?thesis by blast
qed

text \<open>
  C5 at a repository with \<open>foo.TS\<close>, \<open>foo.ts\<close> and a directory \<open>sub.ts\<close>, with \<open>.ts\<close> the
  only extension listed.
\<close>

theorem extension_filter_witness:
  "compilePatterns (larger_than 1000) ts_queries = Inr ([todo_re], [''TODO:''], \<lambda>e. e = ''.ts'')
   \<and> (\<Union>q \<in> set ts_queries. set (Extensions q)) \<subseteq> {''.ts''}
   \<and> schedules (\<lambda>e. e = ''.ts'') \<lparr>vpath = ''repos/r/'' @ ''foo.ts'', verr = False, vIsDir = False\<rparr>
   \<and> \<not> schedules (\<lambda>e. e = ''.ts'') \<lparr>vpath = ''repos/r/'' @ ''foo.TS'', verr = False, vIsDir = False\<rparr>
   \<and> \<not> schedules (\<lambda>e. e = ''.ts'') \<lparr>vpath = ''repos/r/sub.ts'', verr = False, vIsDir = True\<rparr>
   \<and> collects (larger_than 1000) ts_world ts_queries
        [\<lparr>FilePath = ''repos/r/foo.ts'', LineNumber = 1, LineText = ''TODO: lower'',
           Repository = ''r'',
           MatchInfo = \<lparr>Pattern = ''TODO:'', StartIndex = 0, EndIndex = 5\<rparr>\<rparr>]
   \<and> Ext ''repos/r/foo.ts'' \<in> (\<Union>q \<in> set ts_queries. set (Extensions q))"
proof -
  let ?r = "\<lparr>FilePath = ''repos/r/foo.ts'', LineNumber = 1, LineText = ''TODO: lower'',
           Repository = ''r'',
           MatchInfo = \<lparr>Pattern = ''TODO:'', StartIndex = 0, EndIndex = 5\<rparr>\<rparr>"
  have sub: "(\<Union>q \<in> set ts_queries. set (Extensions q)) \<subseteq> {''.ts''}"
    by (simp add: ts_queries_def)
  have mem: "''.ts'' \<in> (\<Union>q \<in> set ts_queries. set (Extensions q))"
    by (simp add: ts_queries_def)
  have c: "collects (larger_than 1000) ts_world ts_queries [?r]" by (simp add: ts_collects)
  have r: "?r \<in> set [?r]" by simp
  note t = extension_filter [OF ts_compiled, where dir = "''repos/r/''" and e = False
      and d = False and w = ts_world and results = "[?r]" and r = ?r
      and v = "\<lparr>vpath = ''repos/r/sub.ts'', verr = False, vIsDir = True\<rparr>"]
  from t sub mem c r ts_compiled show ?thesis by simp
qed

subsection \<open>C6: order and labels\<close>

text \<open>
  C6: \<open>compilePatterns\<close> fails exactly when the library refuses the expression of a
  query; otherwise it returns as many compiled patterns and original patterns as there
  are queries, the \<open>i\<close>-th of them from the \<open>i\<close>-th query, and every result that \<open>scanFile\<close>
  then sends, for any file, carries the pattern text, as written in the query, of the
  query whose compiled pattern gave the match.
\<close>

theorem compiled_order_and_labels:
  "(compilePatterns large queries = Inl RegexpPanic)
     = (\<exists>q \<in> set queries. compile large (QPattern q) = None)
   \<and> (compilePatterns large queries = Inr (patterns, originalPatterns, extensions) \<longrightarrow>
        length patterns = length queries \<and> length originalPatterns = length queries
        \<and> (\<forall>i < length queries. compile large (QPattern (queries ! i)) = Some (patterns ! i)
              \<and> originalPatterns ! i = QPattern (queries ! i))
        \<and> (\<forall>fs path repository rs r.
              scanFile fs path patterns originalPatterns repository = Inr rs \<and> r \<in> set rs \<longrightarrow>
              (\<exists>i < length queries.
                 MatchInfo r \<in> set (findMatchPositions (LineText r) (patterns ! i)
                                       (QPattern (queries ! i)))
               \<and> Pattern (MatchInfo r) = QPattern (queries ! i))))"
proof (intro conjI impI allI)
  show "(compilePatterns large queries = Inl RegexpPanic)
     = (\<exists>q \<in> set queries. compile large (QPattern q) = None)"
    by (simp add: compilePatterns_eq)
next
  assume cp: "compilePatterns large queries = Inr (patterns, originalPatterns, extensions)"
  from compiled_facts(1) [OF cp] show "length patterns = length queries" by simp
next
  assume cp: "compilePatterns large queries = Inr (patterns, originalPatterns, extensions)"
  from compiled_facts(2) [OF cp] show "length originalPatterns = length queries" by simp
next
  fix i
  assume cp: "compilePatterns large queries = Inr (patterns, originalPatterns, extensions)"
    and i: "i < length queries"
  note p = compiled_facts(1) [OF cp] and o = compiled_facts(2) [OF cp]
    and c = compiled_facts(4) [OF cp]
  from i have "queries ! i \<in> set queries" by simp
  with c have "compile large (QPattern (queries ! i))
      = Some (map wildcard_item (code_points (QPattern (queries ! i))))" by blast
  with i p show "compile large (QPattern (queries ! i)) = Some (patterns ! i)" by simp
  from i o show "originalPatterns ! i = QPattern (queries ! i)" by simp
next
  fix fs path repository rs r
  assume cp: "compilePatterns large queries = Inr (patterns, originalPatterns, extensions)"
    and "scanFile fs path patterns originalPatterns repository = Inr rs \<and> r \<in> set rs"
  then have sf: "scanFile fs path patterns originalPatterns repository = Inr rs"
    and r: "r \<in> set rs" by simp_all
  from scanFile_results [OF cp sf r] obtain i where i: "i < length queries"
    and mi: "MatchInfo r \<in> set (findMatchPositions (LineText r) (patterns ! i)
                                  (QPattern (queries ! i)))"
    by blast
  from findMatchPositions_mem [OF mi] have "Pattern (MatchInfo r) = QPattern (queries ! i)"
    by simp
  with i mi show "\<exists>i < length queries.
      MatchInfo r \<in> set (findMatchPositions (LineText r) (patterns ! i) (QPattern (queries ! i)))
      \<and> Pattern (MatchInfo r) = QPattern (queries ! i)" by blast
qed

text \<open>
  C6 at the two queries \<open>b*\<close> and \<open>a\<close> on the line \<open>ab\<close>, and at a list of queries whose
  second pattern the library refuses.
\<close>

theorem compiled_order_and_labels_witness:
  "compilePatterns (larger_than 1000) two_queries
     = Inr ([[Lit (byte CHR ''b''), AnyStar], [Lit (byte CHR ''a'')]], [''b*'', ''a''],
            \<lambda>e. e = ''.go'' \<or> e = ''.py'')
   \<and> scanFile [''f.go'' \<mapsto> ''ab''] ''f.go''
        [[Lit (byte CHR ''b''), AnyStar], [Lit (byte CHR ''a'')]] [''b*'', ''a''] ''r''
     = Inr [\<lparr>FilePath = ''f.go'', LineNumber = 1, LineText = ''ab'', Repository = ''r'',
              MatchInfo = \<lparr>Pattern = ''b*'', StartIndex = 1, EndIndex = 2\<rparr>\<rparr>,
            \<lparr>FilePath = ''f.go'', LineNumber = 1, LineText = ''ab'', Repository = ''r'',
              MatchInfo = \<lparr>Pattern = ''a'', StartIndex = 0, EndIndex = 1\<rparr>\<rparr>]
   \<and> compile (larger_than 1000) ''b*'' = Some [Lit (byte CHR ''b''), AnyStar]
   \<and> compile (larger_than 1000) ''a'' = Some [Lit (byte CHR ''a'')]
   \<and> \<lparr>Pattern = ''a'', StartIndex = 0, EndIndex = 1\<rparr>
       \<in> set (findMatchPositions ''ab'' [Lit (byte CHR ''a'')] ''a'')
   \<and> compile (larger_than 1000) stray_byte = None
   \<and> compilePatterns (larger_than 1000)
        [\<lparr>QPattern = ''a'', Extensions = []\<rparr>, \<lparr>QPattern = stray_byte, Extensions = []\<rparr>]
      = Inl RegexpPanic"
proof -
  let ?ps = "[[Lit (byte CHR ''b''), AnyStar], [Lit (byte CHR ''a'')]]"
  let ?es = "\<lambda>e. e = ''.go'' \<or> e = ''.py''"
  let ?r = "\<lparr>FilePath = ''f.go'', LineNumber = 1, LineText = ''ab'', Repository = ''r'',
              MatchInfo = \<lparr>Pattern = ''a'', StartIndex = 0, EndIndex = 1\<rparr>\<rparr>"
  let ?r' = "\<lparr>FilePath = ''f.go'', LineNumber = 1, LineText = ''ab'', Repository = ''r'',
              MatchInfo = \<lparr>Pattern = ''b*'', StartIndex = 1, EndIndex = 2\<rparr>\<rparr>"
  let ?bad = "[\<lparr>QPattern = ''a'', Extensions = []\<rparr>, \<lparr>QPattern = stray_byte, Extensions = []\<rparr>]"
  have c: "compile (larger_than 1000) ''b*'' = Some [Lit (byte CHR ''b''), AnyStar]"
    "compile (larger_than 1000) ''a'' = Some [Lit (byte CHR ''a'')]"
    by (simp_all add: ascii_compile byte_def wildcard_item_def)
  then have cps: "map wildcard_item (code_points ''b*'') = [Lit (byte CHR ''b''), AnyStar]"
    "map wildcard_item (code_points ''a'') = [Lit (byte CHR ''a'')]"
    by (simp_all add: compile_eq split: if_splits)
  have cp: "compilePatterns (larger_than 1000) two_queries = Inr (?ps, [''b*'', ''a''], ?es)"
    by (simp add: two_queries_def compilePatterns_eq c cps)
  have sf: "scanFile [''f.go'' \<mapsto> ''ab''] ''f.go'' ?ps [''b*'', ''a''] ''r'' = Inr [?r', ?r]"
    by code_simp
  have f: "findMatchPositions ''ab'' [Lit (byte CHR ''b''), AnyStar] ''b*''
      = [\<lparr>Pattern = ''b*'', StartIndex = 1, EndIndex = 2\<rparr>]" by code_simp
  have s: "compile (larger_than 1000) stray_byte = None" by code_simp
  note t = compiled_order_and_labels [of "larger_than 1000" two_queries ?ps "[''b*'', ''a'']" ?es]
  from t cp have "\<forall>fs path repository rs r.
      scanFile fs path ?ps [''b*'', ''a''] repository = Inr rs \<and> r \<in> set rs \<longrightarrow>
      (\<exists>i < length two_queries.
         MatchInfo r \<in> set (findMatchPositions (LineText r) (?ps ! i) (QPattern (two_queries ! i)))
       \<and> Pattern (MatchInfo r) = QPattern (two_queries ! i))"
    by blast
  from this [rule_format, of "[''f.go'' \<mapsto> ''ab'']" "''f.go''" "''r''" "[?r', ?r]" ?r] sf
  have "\<exists>i < length two_queries.
         MatchInfo ?r \<in> set (findMatchPositions (LineText ?r) (?ps ! i) (QPattern (two_queries ! i)))
       \<and> Pattern (MatchInfo ?r) = QPattern (two_queries ! i)"
    by simp
  then have m: "\<lparr>Pattern = ''a'', StartIndex = 0, EndIndex = 1\<rparr>
       \<in> set (findMatchPositions ''ab'' [Lit (byte CHR ''a'')] ''a'')"
    using f by (auto simp: two_queries_def less_Suc_eq)
  from compiled_order_and_labels [of "larger_than 1000" ?bad] s
  have b: "compilePatterns (larger_than 1000) ?bad = Inl RegexpPanic" by simp
  from cp sf c m s b show ?thesis by (simp only: simp_thms)
qed

subsection \<open>C7: a file that cannot be opened\<close>

text \<open>
  C7: when a file cannot be opened, \<open>scanFile\<close> sends nothing and does not fail, and
  the run collects exactly what it collects when the file is not there: the scans of
  all other files, in every directory and repository, go on.
\<close>

theorem unopenable_file_is_skipped:
  assumes "files w path = None"
  shows "scanFile (files w) path patterns originalPatterns repository = Inr []
    \<and> collects large (without_path w path) queries results = collects large w queries results"
proof -
  have sf: "scanFile (files w) path ps os n = Inr []" for ps os n
    using assms by (simp add: scanFile_def)
  let ?f = "\<lambda>ps os (p, n). scanFile (files w) p ps os n"
  let ?Q = "\<lambda>t :: string \<times> string. fst t \<noteq> path"
  have skip: "?f ps os t = Inr []" if "\<not> ?Q t" for ps os t
    using that sf by (cases t) simp
  have outs: "outputs (without_path w path) ps os ts = map (?f ps os) ts" for ps os ts
    by (simp add: outputs_def without_path_def)
  have outs': "outputs w ps os ts = map (?f ps os) ts" for ps os ts
    by (simp add: outputs_def)
  have a: "list_all (\<lambda>out. \<not> isl out) (map (?f ps os) (filter ?Q ts))
      = list_all (\<lambda>out. \<not> isl out) (map (?f ps os) ts)" for ps os ts
    by (rule list_all_skip) (simp add: skip)
  have b: "interleavings (map (projr \<circ> ?f ps os) (filter ?Q ts))
      = interleavings (map (projr \<circ> ?f ps os) ts)" for ps os ts
    by (rule interleavings_skip) (simp add: skip)
  have "collects large (without_path w path) queries results = collects large w queries results"
    using a b
    by (simp add: collects_def outs outs' spawned_without_path split: sum.splits prod.splits)
  with sf show ?thesis by simp
qed

text \<open>
  C7 at the file \<open>gone.go\<close> of the second repository, which is scheduled and cannot be
  opened.
\<close>

theorem unopenable_file_is_skipped_witness:
  "files two_repo_world ''repos/b/gone.go'' = None
   \<and> scanFile (files two_repo_world) ''repos/b/gone.go'' [todo_re] [''TODO:''] ''b'' = Inr []
   \<and> (''repos/b/gone.go'', ''b'') \<in> set (spawned (walker two_repo_world (\<lambda>e. e = ''.go'')))
   \<and> collects (larger_than 1000) (without_path two_repo_world ''repos/b/gone.go'') todo_queries
        [\<lparr>FilePath = ''repos/a/x.go'', LineNumber = 1, LineText = ''TODO: a'',
            Repository = ''a'',
            MatchInfo = \<lparr>Pattern = ''TODO:'', StartIndex = 0, EndIndex = 5\<rparr>\<rparr>,
         \<lparr>FilePath = ''repos/b/y.go'', LineNumber = 1, LineText = ''TODO: b'',
            Repository = ''b'',
            MatchInfo = \<lparr>Pattern = ''TODO:'', StartIndex = 0, EndIndex = 5\<rparr>\<rparr>]"
proof -
  have n: "files two_repo_world ''repos/b/gone.go'' = None"
    by (simp add: two_repo_world_def)
  from unopenable_file_is_skipped [OF n, where patterns = "[todo_re]"
      and originalPatterns = "[''TODO:'']" and repository = "''b''" and queries = todo_queries
      and large = "larger_than 1000"]
    n two_collects two_tasks
  show ?thesis by simp
qed

subsection \<open>C8: the same results up to order\<close>




subsection \<open>C9: the walks of the repositories\<close>

text \<open>
  C9 says that the walk of each repository runs in a task of its own, so that a slow
  walk does not delay the start of another. \<open>main\<close> starts one task for all walks, with
  the loop over the repositories inside: for the two repositories \<open>a\<close> and \<open>b\<close> the walk of
  \<open>b\<close> starts after the walk of \<open>a\<close> has returned.
\<close>

theorem walks_counterexample:
  "compilePatterns (larger_than 1000) todo_queries = Inr ([todo_re], [''TODO:''], \<lambda>e. e = ''.go'')
   \<and> repositories two_repo_world = [(''a'', True), (''notes.txt'', False), (''b'', True)]
   \<and> walker two_repo_world (\<lambda>e. e = ''.go'') =
       [Announce ''a'', Spawn ''repos/a/x.go'' ''a'',
        Announce ''b'', Spawn ''repos/b/gone.go'' ''b'', Spawn ''repos/b/y.go'' ''b'',
        WaitAll, CloseChannel]"
  by (simp add: todo_compiled two_trace) (simp add: two_repo_world_def)

text \<open>
  C9, as amended: all walks run one after the other in one task, in the order of the
  directory listing. With distinct names, when that task comes to the walk of a
  repository it has done exactly the walks of the earlier repositories; then come the
  scan tasks of this walk, the walks of the later repositories, the wait for all scan
  tasks and the closing of the channel.
\<close>

theorem walks_run_in_sequence:
  assumes "distinct (map fst (repositories w))"
    and "repositories w = earlier @ (n, True) # later"
    and "walker w extensions = pre @ Announce n # post"
  shows "pre = concat (map (walkBlock w extensions) earlier)
    \<and> post = map (\<lambda>(path, repository). Spawn path repository)
               (walkRepository (walk w (repoPath n)) n extensions)
             @ concat (map (walkBlock w extensions) later) @ [WaitAll, CloseChannel]"
proof -
  let ?X = "concat (map (walkBlock w extensions) earlier)"
  let ?S = "map (\<lambda>(path, repository). Spawn path repository)
               (walkRepository (walk w (repoPath n)) n extensions)"
  let ?Y = "?S @ concat (map (walkBlock w extensions) later) @ [WaitAll, CloseChannel]"
  from assms(1,2) have n: "n \<notin> fst ` set earlier" "n \<notin> fst ` set later" by auto
  from n(1) have x: "Announce n \<notin> set ?X" by (blast dest: Announce_in_blocks)
  have "Announce n \<notin> set ?S" by auto
  moreover from n(2) have "Announce n \<notin> set (concat (map (walkBlock w extensions) later))"
    by (blast dest: Announce_in_blocks)
  ultimately have y: "Announce n \<notin> set ?Y" by simp
  have "walker w extensions = ?X @ Announce n # ?Y"
    by (simp add: walker_def assms(2) walkBlock_def)
  with assms(3) have "?X @ Announce n # ?Y = pre @ Announce n # post" by simp
  from split_unique [OF x y this] show ?thesis .
qed

text \<open>
  The amended C9 at the second of the two repositories.
\<close>

theorem walks_run_in_sequence_witness:
  "distinct (map fst (repositories two_repo_world))
   \<and> repositories two_repo_world = [(''a'', True), (''notes.txt'', False)] @ (''b'', True) # []
   \<and> walker two_repo_world (\<lambda>e. e = ''.go'')
       = [Announce ''a'', Spawn ''repos/a/x.go'' ''a''] @ Announce ''b''
           # [Spawn ''repos/b/gone.go'' ''b'', Spawn ''repos/b/y.go'' ''b'', WaitAll, CloseChannel]
   \<and> [Announce ''a'', Spawn ''repos/a/x.go'' ''a'']
       = concat (map (walkBlock two_repo_world (\<lambda>e. e = ''.go''))
           [(''a'', True), (''notes.txt'', False)])"
proof -
  have d: "distinct (map fst (repositories two_repo_world))"
    by (simp add: two_repo_world_def)
  have r: "repositories two_repo_world
      = [(''a'', True), (''notes.txt'', False)] @ (''b'', True) # []"
    by (simp add: two_repo_world_def)
  have t: "walker two_repo_world (\<lambda>e. e = ''.go'')
       = [Announce ''a'', Spawn ''repos/a/x.go'' ''a''] @ Announce ''b''
           # [Spawn ''repos/b/gone.go'' ''b'', Spawn ''repos/b/y.go'' ''b'', WaitAll, CloseChannel]"
    by (simp add: two_trace)
  from walks_run_in_sequence [OF d r t] d r t show ?thesis by simp
qed

subsection \<open>C10: when the compilation fails\<close>

text \<open>
  C10 says that \<open>compilePatterns\<close> succeeds on every input. The text handed to
  \<open>regexp.MustCompile\<close> has the bytes of the pattern, and the library refuses a text that
  is not valid UTF-8, and an expression that is too large: for the pattern of the one
  byte \<open>0xFF\<close> the compilation panics whatever the size test, and with a test that
  refuses more than three items it panics for the pattern \<open>TODO\<close> with a star.
\<close>

theorem compilePatterns_counterexample:
  "translate stray_byte = stray_byte
   \<and> parse stray_byte = None
   \<and> (\<forall>large. compilePatterns large [\<lparr>QPattern = stray_byte, Extensions = [''.go'']\<rparr>]
        = Inl RegexpPanic)
   \<and> parse (translate ''TODO*'')
       = Some [Lit (byte CHR ''T''), Lit (byte CHR ''O''), Lit (byte CHR ''D''),
               Lit (byte CHR ''O''), AnyStar]
   \<and> compilePatterns (larger_than 3) [\<lparr>QPattern = ''TODO*'', Extensions = [''.go'']\<rparr>]
        = Inl RegexpPanic"
proof -
  have t: "translate stray_byte = stray_byte" by code_simp
  have p: "parse stray_byte = None" by code_simp
  have "compile large stray_byte = None" for large
    by (simp add: compile_def t p)
  then have a: "\<forall>large. compilePatterns large [\<lparr>QPattern = stray_byte, Extensions = [''.go'']\<rparr>]
        = Inl RegexpPanic"
    by (simp add: compilePatterns_def)
  have q: "parse (translate ''TODO*'')
       = Some [Lit (byte CHR ''T''), Lit (byte CHR ''O''), Lit (byte CHR ''D''),
               Lit (byte CHR ''O''), AnyStar]" by code_simp
  then have "compile (larger_than 3) ''TODO*'' = None"
    by (simp add: compile_def larger_than_def)
  then have b: "compilePatterns (larger_than 3) [\<lparr>QPattern = ''TODO*'', Extensions = [''.go'']\<rparr>]
        = Inl RegexpPanic"
    by (simp add: compilePatterns_def)
  from t p a q b show ?thesis by (simp only: simp_thms)
qed

text \<open>
  C10, as amended: the text that \<open>compilePatterns\<close> hands to \<open>regexp.MustCompile\<close> is
  accepted by the parser exactly when the pattern is valid UTF-8, whatever special
  characters it has; a pattern compiles exactly when it is valid UTF-8 and its
  expression is not too large; and \<open>compilePatterns\<close> returns its three results exactly
  when this holds for the pattern of every query, and panics otherwise.
\<close>

theorem compilePatterns_total:
  "(parse (translate p) \<noteq> None) = valid_utf8 p
   \<and> (compile large p \<noteq> None)
       = (valid_utf8 p \<and> \<not> large (map wildcard_item (code_points p)))
   \<and> (\<exists>patterns originalPatterns extensions.
        compilePatterns large queries = Inr (patterns, originalPatterns, extensions))
       = (\<forall>q \<in> set queries. valid_utf8 (QPattern q)
            \<and> \<not> large (map wildcard_item (code_points (QPattern q))))
   \<and> (compilePatterns large queries = Inl RegexpPanic)
       = (\<exists>q \<in> set queries. \<not> (valid_utf8 (QPattern q)
            \<and> \<not> large (map wildcard_item (code_points (QPattern q)))))"
proof -
  have "(parse (translate p) \<noteq> None) = valid_utf8 p" by (simp add: parse_translate)
  moreover have c: "(compile large p \<noteq> None)
       = (valid_utf8 p \<and> \<not> large (map wildcard_item (code_points p)))" for p
    by (simp add: compile_eq)
  moreover have "(\<exists>patterns originalPatterns extensions.
        compilePatterns large queries = Inr (patterns, originalPatterns, extensions))
       = (\<forall>q \<in> set queries. valid_utf8 (QPattern q)
            \<and> \<not> large (map wildcard_item (code_points (QPattern q))))"
  proof -
    have "(\<exists>patterns originalPatterns extensions.
        compilePatterns large queries = Inr (patterns, originalPatterns, extensions))
       = (\<forall>q \<in> set queries. compile large (QPattern q) \<noteq> None)"
      by (simp add: compilePatterns_eq)
    then show ?thesis by (simp only: c)
  qed
  moreover have "(compilePatterns large queries = Inl RegexpPanic)
       = (\<exists>q \<in> set queries. \<not> (valid_utf8 (QPattern q)
            \<and> \<not> large (map wildcard_item (code_points (QPattern q)))))"
  proof -
    have "(compilePatterns large queries = Inl RegexpPanic)
       = (\<exists>q \<in> set queries. \<not> compile large (QPattern q) \<noteq> None)"
      by (simp add: compilePatterns_eq)
    then show ?thesis by (simp only: c)
  qed
  ultimately show ?thesis by (simp only: simp_thms)
qed

text \<open>
  The amended C10 at patterns with backslashes, brackets and operators, and at the
  empty pattern.
\<close>

theorem compilePatterns_total_witness:
  "valid_utf8 (backslash # ''[a-z]+'' @ backslash # ''d{2}|(x)^$'')
   \<and> parse (translate (backslash # ''[a-z]+'' @ backslash # ''d{2}|(x)^$'')) \<noteq> None
   \<and> parse (translate []) = Some []
   \<and> (\<exists>patterns originalPatterns extensions.
        compilePatterns (larger_than 1000)
          [\<lparr>QPattern = [backslash, CHR ''*''], Extensions = []\<rparr>,
           \<lparr>QPattern = ''[]'', Extensions = []\<rparr>, \<lparr>QPattern = [], Extensions = []\<rparr>]
        = Inr (patterns, originalPatterns, extensions))"
proof -
  let ?p = "backslash # ''[a-z]+'' @ backslash # ''d{2}|(x)^$''"
  let ?qs = "[\<lparr>QPattern = [backslash, CHR ''*''], Extensions = []\<rparr>,
           \<lparr>QPattern = ''[]'', Extensions = []\<rparr>, \<lparr>QPattern = [], Extensions = []\<rparr>]"
  have v: "valid_utf8 ?p" by (simp add: ascii_valid byte_def backslash_def)
  have e: "parse (translate []) = Some []" by code_simp
  have ok: "\<forall>q \<in> set ?qs. valid_utf8 (QPattern q)
      \<and> \<not> larger_than 1000 (map wildcard_item (code_points (QPattern q)))"
    by (simp add: ascii_valid ascii_code_points byte_def backslash_def larger_than_def)
  from compilePatterns_total [of ?p "larger_than 1000" ?qs] v e ok show ?thesis by blast
qed

end
